theory Spec2Isabelle
  imports Main "HOL-Library.Word" "HOL-Library.Multiset"
begin

section \<open>Byte buffers\<close>

text \<open>
  The icon encoders of \<^verbatim>\<open>scripts/generate-all-icons.js\<close> build their output in a
  Node.js \<^verbatim>\<open>Buffer\<close>: a fixed-length array of bytes that is written at absolute
  offsets. A buffer is modelled as a list of 8-bit words; a write returns the updated
  buffer. The numbers the script hands to the writers are JavaScript numbers holding
  integers (pixel sizes, array lengths, literals): they are modelled as \<open>int\<close>, and
  \<^verbatim>\<open>undefined\<close> (an index past the end of an array) as \<open>None\<close>.

  Every writer of the \<^verbatim>\<open>writeUInt\<close> family first checks that the value fits the field
  and then that the field lies inside the buffer. A value that does not fit is outside
  the writer's contract; Node.js throws a \<^verbatim>\<open>RangeError\<close> (\<^verbatim>\<open>ERR_OUT_OF_RANGE\<close>) for
  it, as it does for a field outside the buffer, and no byte is stored. A thrown error
  is the result \<open>Inl\<close>; for the \<^verbatim>\<open>async\<close> function \<^verbatim>\<open>createIco\<close> it is the rejection
  of the promise and \<open>Inr\<close> is the value the promise resolves to. Allocation is taken
  to succeed: the platform's maximal buffer length and its memory are resources
  outside this model.
\<close>

type_synonym byte = "8 word"
type_synonym buffer = "byte list"

datatype error = RangeError

definition bind_err :: "error + 'a \<Rightarrow> ('a \<Rightarrow> error + 'b) \<Rightarrow> error + 'b" where
  "bind_err m f = (case m of Inl e \<Rightarrow> Inl e | Inr x \<Rightarrow> f x)"

text \<open>\<^verbatim>\<open>Buffer.alloc(size)\<close>: a zero-filled buffer.\<close>

definition Buffer_alloc :: "nat \<Rightarrow> buffer" where
  "Buffer_alloc n = replicate n 0"

text \<open>
  \<^verbatim>\<open>buf.writeUInt8(value, offset)\<close>. An \<^verbatim>\<open>undefined\<close> value is coerced to NaN, which
  passes both comparisons of the range check and is stored as 0.
\<close>

definition writeUInt8 :: "int option \<Rightarrow> nat \<Rightarrow> buffer \<Rightarrow> error + buffer" where
  "writeUInt8 v offset buf =
     (case v of
        None \<Rightarrow>
          if offset < length buf then Inr (buf[offset := 0]) else Inl RangeError
      | Some n \<Rightarrow>
          if n > 255 \<or> n < 0 then Inl RangeError
          else if offset < length buf then Inr (buf[offset := word_of_int n])
          else Inl RangeError)"

text \<open>
  \<^verbatim>\<open>buf.writeUInt16LE(value, offset)\<close>, \<^verbatim>\<open>buf.writeUInt32LE(value, offset)\<close> and
  \<^verbatim>\<open>buf.writeUInt32BE(value, offset)\<close>: the value is stored byte by byte, each store
  keeping the low eight bits, the value shifted right by eight in between.
\<close>

definition writeUInt16LE :: "int \<Rightarrow> nat \<Rightarrow> buffer \<Rightarrow> error + buffer" where
  "writeUInt16LE n offset buf =
     (if n > 65535 \<or> n < 0 then Inl RangeError
      else if offset + 2 \<le> length buf
      then Inr (buf[offset := word_of_int n, offset + 1 := word_of_int (n div 256)])
      else Inl RangeError)"

definition writeUInt32LE :: "int \<Rightarrow> nat \<Rightarrow> buffer \<Rightarrow> error + buffer" where
  "writeUInt32LE n offset buf =
     (if n > 4294967295 \<or> n < 0 then Inl RangeError
      else if offset + 4 \<le> length buf
      then Inr (buf[offset := word_of_int n,
                    offset + 1 := word_of_int (n div 256),
                    offset + 2 := word_of_int (n div 65536),
                    offset + 3 := word_of_int (n div 16777216)])
      else Inl RangeError)"

definition writeUInt32BE :: "int \<Rightarrow> nat \<Rightarrow> buffer \<Rightarrow> error + buffer" where
  "writeUInt32BE n offset buf =
     (if n > 4294967295 \<or> n < 0 then Inl RangeError
      else if offset + 4 \<le> length buf
      then Inr (buf[offset + 3 := word_of_int n,
                    offset + 2 := word_of_int (n div 256),
                    offset + 1 := word_of_int (n div 65536),
                    offset := word_of_int (n div 16777216)])
      else Inl RangeError)"

text \<open>
  \<^verbatim>\<open>source.copy(target, targetStart)\<close>: copies as many bytes of the source as fit
  behind \<open>targetStart\<close>, none when \<open>targetStart\<close> is at or past the end. It never throws
  for a non-negative start.
\<close>

definition buffer_copy :: "buffer \<Rightarrow> buffer \<Rightarrow> nat \<Rightarrow> buffer" where
  "buffer_copy source target targetStart =
     (if targetStart \<ge> length target then target
      else let nb = min (length source) (length target - targetStart)
           in take targetStart target @ take nb source @ drop (targetStart + nb) target)"

text \<open>
  \<^verbatim>\<open>buf.write(string, offset, length, 'ascii')\<close>: offset and length are validated
  against the buffer's length, then at most \<open>length\<close> characters are stored, one byte
  each.
\<close>

definition ascii_bytes :: "string \<Rightarrow> buffer" where
  "ascii_bytes s = map of_char s"

definition buffer_write :: "string \<Rightarrow> nat \<Rightarrow> nat \<Rightarrow> buffer \<Rightarrow> error + buffer" where
  "buffer_write s offset len buf =
     (if offset > length buf \<or> len > length buf then Inl RangeError
      else Inr (buffer_copy (take len (ascii_bytes s)) buf offset))"

section \<open>The ICO encoder\<close>

text \<open>
  \<^verbatim>\<open>createIco(pngBuffers, sizes)\<close> takes two parallel arrays. Its first loop pairs
  \<open>pngBuffers[i]\<close> with \<open>sizes[i]\<close> into an image object; an index past the end of
  \<open>sizes\<close> reads \<^verbatim>\<open>undefined\<close>. The type of the \<open>data\<close> field is a parameter: it is a
  buffer here and the address of a buffer in the store model further down.
\<close>

record 'd image =
  width :: "int option"
  height :: "int option"
  data :: 'd

fun collect_images :: "'d list \<Rightarrow> int list \<Rightarrow> 'd image list" where
  "collect_images [] sizes = []"
| "collect_images (png # pngs) sizes =
     (let sz = (case sizes of [] \<Rightarrow> None | s # _ \<Rightarrow> Some s)
      in \<lparr>width = sz, height = sz, data = png\<rparr> # collect_images pngs (tl sizes))"

text \<open>
  The second loop records where each image's data will start: the running offset
  before the image, advanced by the image's data length. It returns the offsets and
  the final offset, which is the length of the whole file.
\<close>

fun image_offsets :: "nat \<Rightarrow> buffer image list \<Rightarrow> nat list \<times> nat" where
  "image_offsets dataOffset [] = ([], dataOffset)"
| "image_offsets dataOffset (img # imgs) =
     (let (offs, total) = image_offsets (dataOffset + length (data img)) imgs
      in (dataOffset # offs, total))"

text \<open>\<^verbatim>\<open>img.width >= 256 ? 0 : img.width\<close>; the comparison is false for \<^verbatim>\<open>undefined\<close>.\<close>

definition dimension :: "int option \<Rightarrow> int option" where
  "dimension d = (case d of None \<Rightarrow> None | Some n \<Rightarrow> if n \<ge> 256 then Some 0 else Some n)"

text \<open>The directory loop: one 16-byte entry per image, \<open>offset\<close> advancing by 16.\<close>

fun write_directory :: "buffer image list \<Rightarrow> nat list \<Rightarrow> nat \<Rightarrow> buffer \<Rightarrow> error + buffer" where
  "write_directory (img # imgs) (imageOffset # offs) offset buffer =
     bind_err (writeUInt8 (dimension (width img)) offset buffer) (\<lambda>buffer.
     bind_err (writeUInt8 (dimension (height img)) (offset + 1) buffer) (\<lambda>buffer.
     bind_err (writeUInt8 (Some 0) (offset + 2) buffer) (\<lambda>buffer.
     bind_err (writeUInt8 (Some 0) (offset + 3) buffer) (\<lambda>buffer.
     bind_err (writeUInt16LE 1 (offset + 4) buffer) (\<lambda>buffer.
     bind_err (writeUInt16LE 32 (offset + 6) buffer) (\<lambda>buffer.
     bind_err (writeUInt32LE (int (length (data img))) (offset + 8) buffer) (\<lambda>buffer.
     bind_err (writeUInt32LE (int imageOffset) (offset + 12) buffer) (\<lambda>buffer.
     write_directory imgs offs (offset + 16) buffer))))))))"
| "write_directory _ _ offset buffer = Inr buffer"

text \<open>The data loop: each image's data is copied to its recorded offset.\<close>

fun copy_images :: "buffer image list \<Rightarrow> nat list \<Rightarrow> buffer \<Rightarrow> buffer" where
  "copy_images (img # imgs) (imageOffset # offs) buffer =
     copy_images imgs offs (buffer_copy (data img) buffer imageOffset)"
| "copy_images _ _ buffer = buffer"

definition createIco :: "buffer list \<Rightarrow> int list \<Rightarrow> error + buffer" where
  "createIco pngBuffers sizes =
     (let images = collect_images pngBuffers sizes;
          headerSize = 6;
          dirEntrySize = 16;
          numImages = length images;
          (imageOffsets, dataOffset) =
             image_offsets (headerSize + dirEntrySize * numImages) images;
          buffer = Buffer_alloc dataOffset
      in bind_err (writeUInt16LE 0 0 buffer) (\<lambda>buffer.
         bind_err (writeUInt16LE 1 2 buffer) (\<lambda>buffer.
         bind_err (writeUInt16LE (int numImages) 4 buffer) (\<lambda>buffer.
         bind_err (write_directory images imageOffsets headerSize buffer) (\<lambda>buffer.
         Inr (copy_images images imageOffsets buffer))))))"

section \<open>The ICNS encoder\<close>

text \<open>
  The type codes are an object literal whose keys are the sizes. \<^verbatim>\<open>Object.entries\<close>
  enumerates integer keys in ascending numeric order, which is also the order in which
  the literal is written.
\<close>

definition icnsTypes :: "(int \<times> string) list" where
  "icnsTypes =
     [(16, ''icp4''), (32, ''icp5''), (64, ''icp6''), (128, ''ic07''),
      (256, ''ic08''), (512, ''ic09''), (1024, ''ic10'')]"

definition make_chunk :: "string \<Rightarrow> buffer \<Rightarrow> error + buffer" where
  "make_chunk typeCode png =
     (let chunkSize = 8 + length png;
          chunk = Buffer_alloc chunkSize
      in bind_err (buffer_write typeCode 0 4 chunk) (\<lambda>chunk.
         bind_err (writeUInt32BE (int chunkSize) 4 chunk) (\<lambda>chunk.
         Inr (buffer_copy png chunk 8))))"

fun collect_chunks ::
  "(int \<times> string) list \<Rightarrow> (int \<rightharpoonup> buffer) \<Rightarrow> buffer list \<Rightarrow> error + buffer list" where
  "collect_chunks [] pngsBySize chunks = Inr chunks"
| "collect_chunks ((sz, typeCode) # entries) pngsBySize chunks =
     (case pngsBySize sz of
        None \<Rightarrow> collect_chunks entries pngsBySize chunks
      | Some png \<Rightarrow>
          bind_err (make_chunk typeCode png) (\<lambda>chunk.
          collect_chunks entries pngsBySize (chunks @ [chunk])))"

fun copy_chunks :: "buffer list \<Rightarrow> nat \<Rightarrow> buffer \<Rightarrow> buffer" where
  "copy_chunks [] offset icns = icns"
| "copy_chunks (chunk # chunks) offset icns =
     copy_chunks chunks (offset + length chunk) (buffer_copy chunk icns offset)"

definition createIcns :: "(int \<rightharpoonup> buffer) \<Rightarrow> error + buffer" where
  "createIcns pngsBySize =
     bind_err (collect_chunks icnsTypes pngsBySize []) (\<lambda>chunks.
       let totalSize = 8 + foldl (\<lambda>sum chunk. sum + length chunk) 0 chunks;
           icns = Buffer_alloc totalSize
       in bind_err (buffer_write ''icns'' 0 4 icns) (\<lambda>icns.
          bind_err (writeUInt32BE (int totalSize) 4 icns) (\<lambda>icns.
          Inr (copy_chunks chunks 8 icns))))"

text \<open>
  The orchestrator fills the mapping that \<^verbatim>\<open>createIcns\<close> receives by one assignment
  \<^verbatim>\<open>icnsPngs[size] = ...\<close> per size, in the order of its size list.
\<close>

definition populate :: "(int \<times> buffer) list \<Rightarrow> (int \<rightharpoonup> buffer)" where
  "populate kvs = foldl (\<lambda>pngs (sz, png). pngs(sz \<mapsto> png)) Map.empty kvs"

section \<open>Buffers as objects\<close>

text \<open>
  A \<^verbatim>\<open>Buffer\<close> is an object: the arrays and mappings handed to the encoders hold
  references, and \<^verbatim>\<open>copy\<close> and the writers change the object they are called on. To
  say which objects an encoder changes, both encoders are modelled a second time over
  a store of buffers. An address is an index into the store, \<^verbatim>\<open>Buffer.alloc\<close> appends
  a fresh object, a writer replaces the contents of its target, and a thrown error
  leaves the store as it was at that moment. The steps are those of the functions
  above, with every buffer replaced by its address.
\<close>

type_synonym addr = nat

type_synonym heap = "buffer list"

type_synonym 'a io = "heap \<Rightarrow> (error + 'a) \<times> heap"

definition return_io :: "'a \<Rightarrow> 'a io" where
  "return_io x h = (Inr x, h)"

definition bind_io :: "'a io \<Rightarrow> ('a \<Rightarrow> 'b io) \<Rightarrow> 'b io" where
  "bind_io m f h = (case m h of (Inl e, h') \<Rightarrow> (Inl e, h') | (Inr x, h') \<Rightarrow> f x h')"

definition heap_alloc :: "nat \<Rightarrow> addr io" where
  "heap_alloc n h = (Inr (length h), h @ [Buffer_alloc n])"

definition heap_length :: "addr \<Rightarrow> nat io" where
  "heap_length a h = (Inr (length (h ! a)), h)"

definition heap_write :: "addr \<Rightarrow> (buffer \<Rightarrow> error + buffer) \<Rightarrow> unit io" where
  "heap_write a w h = (case w (h ! a) of Inl e \<Rightarrow> (Inl e, h) | Inr b \<Rightarrow> (Inr (), h[a := b]))"

definition heap_copy :: "addr \<Rightarrow> addr \<Rightarrow> nat \<Rightarrow> unit io" where
  "heap_copy source target targetStart h =
     (Inr (), h[target := buffer_copy (h ! source) (h ! target) targetStart])"

fun image_offsets_h :: "nat \<Rightarrow> addr image list \<Rightarrow> (nat list \<times> nat) io" where
  "image_offsets_h dataOffset [] = return_io ([], dataOffset)"
| "image_offsets_h dataOffset (img # imgs) =
     bind_io (heap_length (data img)) (\<lambda>len.
     bind_io (image_offsets_h (dataOffset + len) imgs) (\<lambda>(offs, total).
     return_io (dataOffset # offs, total)))"

fun write_directory_h :: "addr image list \<Rightarrow> nat list \<Rightarrow> nat \<Rightarrow> addr \<Rightarrow> unit io" where
  "write_directory_h (img # imgs) (imageOffset # offs) offset buffer =
     bind_io (heap_write buffer (writeUInt8 (dimension (width img)) offset)) (\<lambda>_.
     bind_io (heap_write buffer (writeUInt8 (dimension (height img)) (offset + 1))) (\<lambda>_.
     bind_io (heap_write buffer (writeUInt8 (Some 0) (offset + 2))) (\<lambda>_.
     bind_io (heap_write buffer (writeUInt8 (Some 0) (offset + 3))) (\<lambda>_.
     bind_io (heap_write buffer (writeUInt16LE 1 (offset + 4))) (\<lambda>_.
     bind_io (heap_write buffer (writeUInt16LE 32 (offset + 6))) (\<lambda>_.
     bind_io (heap_length (data img)) (\<lambda>len.
     bind_io (heap_write buffer (writeUInt32LE (int len) (offset + 8))) (\<lambda>_.
     bind_io (heap_write buffer (writeUInt32LE (int imageOffset) (offset + 12))) (\<lambda>_.
     write_directory_h imgs offs (offset + 16) buffer)))))))))"
| "write_directory_h _ _ offset buffer = return_io ()"

fun copy_images_h :: "addr image list \<Rightarrow> nat list \<Rightarrow> addr \<Rightarrow> unit io" where
  "copy_images_h (img # imgs) (imageOffset # offs) buffer =
     bind_io (heap_copy (data img) buffer imageOffset) (\<lambda>_.
     copy_images_h imgs offs buffer)"
| "copy_images_h _ _ buffer = return_io ()"

definition createIco_h :: "addr list \<Rightarrow> int list \<Rightarrow> addr io" where
  "createIco_h pngBuffers sizes =
     (let images = collect_images pngBuffers sizes;
          headerSize = 6;
          dirEntrySize = 16;
          numImages = length images
      in bind_io (image_offsets_h (headerSize + dirEntrySize * numImages) images)
           (\<lambda>(imageOffsets, dataOffset).
         bind_io (heap_alloc dataOffset) (\<lambda>buffer.
         bind_io (heap_write buffer (writeUInt16LE 0 0)) (\<lambda>_.
         bind_io (heap_write buffer (writeUInt16LE 1 2)) (\<lambda>_.
         bind_io (heap_write buffer (writeUInt16LE (int numImages) 4)) (\<lambda>_.
         bind_io (write_directory_h images imageOffsets headerSize buffer) (\<lambda>_.
         bind_io (copy_images_h images imageOffsets buffer) (\<lambda>_.
         return_io buffer))))))))"

definition make_chunk_h :: "string \<Rightarrow> addr \<Rightarrow> addr io" where
  "make_chunk_h typeCode png =
     bind_io (heap_length png) (\<lambda>len.
     let chunkSize = 8 + len
     in bind_io (heap_alloc chunkSize) (\<lambda>chunk.
        bind_io (heap_write chunk (buffer_write typeCode 0 4)) (\<lambda>_.
        bind_io (heap_write chunk (writeUInt32BE (int chunkSize) 4)) (\<lambda>_.
        bind_io (heap_copy png chunk 8) (\<lambda>_.
        return_io chunk)))))"

fun collect_chunks_h ::
  "(int \<times> string) list \<Rightarrow> (int \<rightharpoonup> addr) \<Rightarrow> addr list \<Rightarrow> addr list io" where
  "collect_chunks_h [] pngsBySize chunks = return_io chunks"
| "collect_chunks_h ((sz, typeCode) # entries) pngsBySize chunks =
     (case pngsBySize sz of
        None \<Rightarrow> collect_chunks_h entries pngsBySize chunks
      | Some png \<Rightarrow>
          bind_io (make_chunk_h typeCode png) (\<lambda>chunk.
          collect_chunks_h entries pngsBySize (chunks @ [chunk])))"

fun total_chunks_h :: "nat \<Rightarrow> addr list \<Rightarrow> nat io" where
  "total_chunks_h acc [] = return_io acc"
| "total_chunks_h acc (chunk # chunks) =
     bind_io (heap_length chunk) (\<lambda>len. total_chunks_h (acc + len) chunks)"

fun copy_chunks_h :: "addr list \<Rightarrow> nat \<Rightarrow> addr \<Rightarrow> unit io" where
  "copy_chunks_h [] offset icns = return_io ()"
| "copy_chunks_h (chunk # chunks) offset icns =
     bind_io (heap_copy chunk icns offset) (\<lambda>_.
     bind_io (heap_length chunk) (\<lambda>len.
     copy_chunks_h chunks (offset + len) icns))"

definition createIcns_h :: "(int \<rightharpoonup> addr) \<Rightarrow> addr io" where
  "createIcns_h pngsBySize =
     bind_io (collect_chunks_h icnsTypes pngsBySize []) (\<lambda>chunks.
     bind_io (total_chunks_h 0 chunks) (\<lambda>sum.
     let totalSize = 8 + sum
     in bind_io (heap_alloc totalSize) (\<lambda>icns.
        bind_io (heap_write icns (buffer_write ''icns'' 0 4)) (\<lambda>_.
        bind_io (heap_write icns (writeUInt32BE (int totalSize) 4)) (\<lambda>_.
        bind_io (copy_chunks_h chunks 8 icns) (\<lambda>_.
        return_io icns))))))"

section \<open>Reading a container back\<close>

text \<open>
  The claims speak about fields of the produced file. A field is read back the way a
  parser of the format reads it: one byte, or two or four bytes combined in little or
  big endian order.
\<close>

definition readUInt8 :: "buffer \<Rightarrow> nat \<Rightarrow> int" where
  "readUInt8 buf offset = uint (buf ! offset)"

definition readUInt16LE :: "buffer \<Rightarrow> nat \<Rightarrow> int" where
  "readUInt16LE buf offset = uint (buf ! offset) + 256 * uint (buf ! (offset + 1))"

definition readUInt32LE :: "buffer \<Rightarrow> nat \<Rightarrow> int" where
  "readUInt32LE buf offset =
     uint (buf ! offset) + 256 * uint (buf ! (offset + 1)) +
     65536 * uint (buf ! (offset + 2)) + 16777216 * uint (buf ! (offset + 3))"

definition readUInt32BE :: "buffer \<Rightarrow> nat \<Rightarrow> int" where
  "readUInt32BE buf offset =
     16777216 * uint (buf ! offset) + 65536 * uint (buf ! (offset + 1)) +
     256 * uint (buf ! (offset + 2)) + uint (buf ! (offset + 3))"

text \<open>
  The bytes a writer stores for a value, and the effect of storing a block of bytes at
  an offset of a buffer that is long enough.
\<close>

definition u8 :: "int option \<Rightarrow> byte" where
  "u8 v = (case v of None \<Rightarrow> 0 | Some n \<Rightarrow> word_of_int n)"

definition u8_ok :: "int option \<Rightarrow> bool" where
  "u8_ok v = (case v of None \<Rightarrow> True | Some n \<Rightarrow> 0 \<le> n \<and> n \<le> 255)"

definition le16 :: "int \<Rightarrow> buffer" where
  "le16 n = [word_of_int n, word_of_int (n div 256)]"

definition le32 :: "int \<Rightarrow> buffer" where
  "le32 n = [word_of_int n, word_of_int (n div 256), word_of_int (n div 65536), word_of_int (n div 16777216)]"

definition be32 :: "int \<Rightarrow> buffer" where
  "be32 n = [word_of_int (n div 16777216), word_of_int (n div 65536), word_of_int (n div 256), word_of_int n]"

definition overwrite :: "nat \<Rightarrow> 'a list \<Rightarrow> 'a list \<Rightarrow> 'a list" where
  "overwrite off bs buf = take off buf @ bs @ drop (off + length bs) buf"

text \<open>
  The layout of an ICO file: the 16 bytes of a directory entry, the condition under
  which every field of the entry is representable, the header, the directory and the
  condition for the whole file. Two images are the same entry when they have the same
  data and the same stored width and height.
\<close>

definition dir_entry :: "buffer image \<Rightarrow> nat \<Rightarrow> buffer" where
  "dir_entry img imageOffset =
     [u8 (dimension (width img)), u8 (dimension (height img)), 0, 0] @ le16 1 @ le16 32 @
     le32 (int (length (data img))) @ le32 (int imageOffset)"

definition entry_ok :: "buffer image \<Rightarrow> nat \<Rightarrow> bool" where
  "entry_ok img imageOffset \<longleftrightarrow>
     u8_ok (dimension (width img)) \<and> u8_ok (dimension (height img)) \<and>
     length (data img) \<le> 4294967295 \<and> imageOffset \<le> 4294967295"

definition ico_header :: "nat \<Rightarrow> buffer" where
  "ico_header n = le16 0 @ le16 1 @ le16 (int n)"

definition ico_directory :: "buffer list \<Rightarrow> int list \<Rightarrow> buffer" where
  "ico_directory pngBuffers sizes =
     (let images = collect_images pngBuffers sizes
      in concat (map2 dir_entry images (fst (image_offsets (6 + 16 * length images) images))))"

definition ico_ok :: "buffer list \<Rightarrow> int list \<Rightarrow> bool" where
  "ico_ok pngBuffers sizes =
     (let images = collect_images pngBuffers sizes
      in length images \<le> 65535 \<and>
         list_all2 entry_ok images (fst (image_offsets (6 + 16 * length images) images)))"


text \<open>
  The layout of an ICNS file: one chunk, the registry entries that are present in the
  mapping (with their data), and the body made of their chunks. \<open>encoded_entries\<close> is
  the same list written with \<open>filter\<close>; \<open>is_chunk\<close> is the description of a chunk as
  a parser sees it.
\<close>

definition icns_chunk :: "string \<Rightarrow> buffer \<Rightarrow> buffer" where
  "icns_chunk typeCode png = ascii_bytes typeCode @ be32 (int (8 + length png)) @ png"

fun present_entries :: "(int \<times> string) list \<Rightarrow> (int \<rightharpoonup> buffer) \<Rightarrow> (string \<times> buffer) list" where
  "present_entries [] pngsBySize = []"
| "present_entries ((sz, typeCode) # entries) pngsBySize =
     (case pngsBySize sz of
        None \<Rightarrow> present_entries entries pngsBySize
      | Some png \<Rightarrow> (typeCode, png) # present_entries entries pngsBySize)"

definition icns_body :: "(int \<rightharpoonup> buffer) \<Rightarrow> buffer" where
  "icns_body pngsBySize =
     concat (map (\<lambda>(typeCode, png). icns_chunk typeCode png) (present_entries icnsTypes pngsBySize))"

definition chunks_ok :: "(string \<times> buffer) list \<Rightarrow> bool" where
  "chunks_ok tps = list_all (\<lambda>(t, png). 8 + length png \<le> 4294967295) tps"

definition encoded_entries :: "(int \<rightharpoonup> buffer) \<Rightarrow> (int \<times> string \<times> buffer) list" where
  "encoded_entries pngsBySize =
     map (\<lambda>(sz, typeCode). (sz, typeCode, the (pngsBySize sz)))
       (filter (\<lambda>(sz, typeCode). pngsBySize sz \<noteq> None) icnsTypes)"

definition is_chunk :: "buffer \<Rightarrow> string \<Rightarrow> buffer \<Rightarrow> bool" where
  "is_chunk chunk typeCode png \<longleftrightarrow>
     length typeCode = 4 \<and> take 4 chunk = ascii_bytes typeCode \<and>
     readUInt32BE chunk 4 = int (8 + length png) \<and> drop 8 chunk = png"

text \<open>
  The Type-Code Registry as the specification lists it, to be compared with the
  table \<open>icnsTypes\<close> of the source.
\<close>

definition type_code_registry :: "int \<rightharpoonup> string" where
  "type_code_registry =
     [16 \<mapsto> ''icp4'', 32 \<mapsto> ''icp5'', 64 \<mapsto> ''icp6'', 128 \<mapsto> ''ic07'',
      256 \<mapsto> ''ic08'', 512 \<mapsto> ''ic09'', 1024 \<mapsto> ''ic10'']"

text \<open>
  For the store: a computation preserves the first \<open>n\<close> objects when it leaves them
  as they are (and \<open>P\<close> holds of its result); \<open>deref\<close>, \<open>contents\<close> and \<open>valid_refs\<close>
  relate references to the buffers they name; \<open>sim\<close> relates a run that writes the
  freshly allocated buffer at the end of the store to the same writes on a buffer
  value.
\<close>

definition preserves :: "nat \<Rightarrow> ('a \<Rightarrow> bool) \<Rightarrow> 'a io \<Rightarrow> bool" where
  "preserves n P m \<longleftrightarrow>
     (\<forall>h. n \<le> length h \<longrightarrow>
        (case m h of (r, h') \<Rightarrow>
           n \<le> length h' \<and> take n h' = take n h \<and> (case r of Inl e \<Rightarrow> True | Inr x \<Rightarrow> P x)))"

definition deref :: "heap \<Rightarrow> addr image \<Rightarrow> buffer image" where
  "deref h img = \<lparr>width = width img, height = height img, data = h ! data img\<rparr>"

definition contents :: "heap \<Rightarrow> (int \<rightharpoonup> addr) \<Rightarrow> (int \<rightharpoonup> buffer)" where
  "contents h pngsBySize = (\<lambda>sz. map_option ((!) h) (pngsBySize sz))"

definition valid_refs :: "heap \<Rightarrow> (int \<rightharpoonup> addr) \<Rightarrow> bool" where
  "valid_refs h pngsBySize \<longleftrightarrow> (\<forall>sz a. pngsBySize sz = Some a \<longrightarrow> a < length h)"

definition sim :: "heap \<Rightarrow> (error + unit) \<times> heap \<Rightarrow> error + buffer \<Rightarrow> bool" where
  "sim h0 r p \<longleftrightarrow>
     (case p of
        Inl e \<Rightarrow> fst r = Inl e \<and> (\<exists>b'. snd r = h0 @ [b'])
      | Inr b' \<Rightarrow> r = (Inr (), h0 @ [b']))"

section \<open>Example files\<close>

text \<open>
  The files expected for small inputs, byte by byte: the ICO file of two images with the
  data \<open>[1, 2]\<close> and \<open>[3]\<close> and the sizes 16 and 256, the one for the sizes 300 and 1024,
  the ICNS file of the sizes 16 and 32 with four and eight bytes of data, and the ICNS
  file of the size 16 with the one byte 9.
\<close>

definition example_ico :: buffer where
  "example_ico =
     [0, 0, 1, 0, 2, 0,
      16, 16, 0, 0, 1, 0, 32, 0, 2, 0, 0, 0, 38, 0, 0, 0,
      0, 0, 0, 0, 1, 0, 32, 0, 1, 0, 0, 0, 40, 0, 0, 0,
      1, 2, 3]"


definition example_icns :: buffer where
  "example_icns =
     [105, 99, 110, 115, 0, 0, 0, 36,
      105, 99, 112, 52, 0, 0, 0, 12, 1, 2, 3, 4,
      105, 99, 112, 53, 0, 0, 0, 16, 1, 2, 3, 4, 5, 6, 7, 8]"

definition example_icns_16 :: buffer where
  "example_icns_16 =
     [105, 99, 110, 115, 0, 0, 0, 17,
      105, 99, 112, 52, 0, 0, 0, 9, 9]"

section \<open>Error propagation\<close>

lemma bind_err_simps [simp]: "bind_err (Inl e) f = Inl e" "bind_err (Inr x) f = f x"
  by (simp_all add: bind_err_def)

section \<open>Writers as block stores\<close>

text \<open>
  Each writer either fails or stores the bytes of its value as one block; consecutive
  blocks merge.
\<close>

lemma length_overwrite: "off + length bs \<le> length buf \<Longrightarrow> length (overwrite off bs buf) = length buf"
  by (simp add: overwrite_def)

lemma nth_overwrite:
  "off + length bs \<le> length buf \<Longrightarrow> i < length buf \<Longrightarrow>
   overwrite off bs buf ! i = (if off \<le> i \<and> i < off + length bs then bs ! (i - off) else buf ! i)"
  by (auto simp: overwrite_def nth_append)

lemma overwrite_overwrite:
  "off + length xs + length ys \<le> length buf \<Longrightarrow> k = off + length xs \<Longrightarrow>
   overwrite k ys (overwrite off xs buf) = overwrite off (xs @ ys) buf"
  by (simp add: overwrite_def ac_simps)

lemma update_overwrite: "i < length buf \<Longrightarrow> buf[i := a] = overwrite i [a] buf"
  by (simp add: overwrite_def upd_conv_take_nth_drop)

lemma overwrite_all: "length bs = length buf \<Longrightarrow> overwrite 0 bs buf = bs"
  by (simp add: overwrite_def)

lemma writeUInt8_eq:
  "offset < length buf \<Longrightarrow>
   writeUInt8 v offset buf = (if u8_ok v then Inr (overwrite offset [u8 v] buf) else Inl RangeError)"
  by (auto simp: writeUInt8_def u8_def u8_ok_def update_overwrite split: option.splits)

lemma writeUInt16LE_eq:
  "offset + 2 \<le> length buf \<Longrightarrow>
   writeUInt16LE n offset buf =
     (if 0 \<le> n \<and> n \<le> 65535 then Inr (overwrite offset (le16 n) buf) else Inl RangeError)"
  by (auto simp: writeUInt16LE_def le16_def update_overwrite length_overwrite overwrite_overwrite)

lemma writeUInt32LE_eq:
  "offset + 4 \<le> length buf \<Longrightarrow>
   writeUInt32LE n offset buf =
     (if 0 \<le> n \<and> n \<le> 4294967295 then Inr (overwrite offset (le32 n) buf) else Inl RangeError)"
  by (auto simp: writeUInt32LE_def le32_def update_overwrite length_overwrite overwrite_overwrite)

lemma writeUInt32BE_eq:
  "offset + 4 \<le> length buf \<Longrightarrow>
   writeUInt32BE n offset buf =
     (if 0 \<le> n \<and> n \<le> 4294967295 then Inr (overwrite offset (be32 n) buf) else Inl RangeError)"
  apply (auto simp: writeUInt32BE_def be32_def)
  apply (rule nth_equalityI)
   apply (simp add: length_overwrite)
  apply (auto simp: nth_overwrite nth_list_update nth_Cons' )
  done

lemma buffer_copy_eq:
  "start + length src \<le> length tgt \<Longrightarrow> buffer_copy src tgt start = overwrite start src tgt"
  by (auto simp: buffer_copy_def overwrite_def Let_def min_def)

lemma length_le16 [simp]: "length (le16 n) = 2" by (simp add: le16_def)

lemma length_le32 [simp]: "length (le32 n) = 4" by (simp add: le32_def)

lemma length_be32 [simp]: "length (be32 n) = 4" by (simp add: be32_def)

lemma length_dir_entry [simp]: "length (dir_entry img off) = 16" by (simp add: dir_entry_def)

lemma u8_ok_0 [simp]: "u8_ok (Some 0)" by (simp add: u8_ok_def)

lemma u8_0 [simp]: "u8 (Some 0) = 0" by (simp add: u8_def)

section \<open>The ICO encoder computes the ICO layout\<close>

lemma write_entry:
  assumes "offset + 16 \<le> length buffer"
  shows "bind_err (writeUInt8 (dimension (width img)) offset buffer) (\<lambda>buffer.
     bind_err (writeUInt8 (dimension (height img)) (offset + 1) buffer) (\<lambda>buffer.
     bind_err (writeUInt8 (Some 0) (offset + 2) buffer) (\<lambda>buffer.
     bind_err (writeUInt8 (Some 0) (offset + 3) buffer) (\<lambda>buffer.
     bind_err (writeUInt16LE 1 (offset + 4) buffer) (\<lambda>buffer.
     bind_err (writeUInt16LE 32 (offset + 6) buffer) (\<lambda>buffer.
     bind_err (writeUInt32LE (int (length (data img))) (offset + 8) buffer) (\<lambda>buffer.
     bind_err (writeUInt32LE (int imageOffset) (offset + 12) buffer) k)))))))
   = (if entry_ok img imageOffset then k (overwrite offset (dir_entry img imageOffset) buffer)
      else Inl RangeError)"
  using assms
  by (simp add: writeUInt8_eq writeUInt16LE_eq writeUInt32LE_eq length_overwrite
      overwrite_overwrite entry_ok_def dir_entry_def)

lemma length_directory [simp]:
  "length imgs = length offs \<Longrightarrow> length (concat (map2 dir_entry imgs offs)) = 16 * length imgs"
  by (induction imgs offs rule: list_induct2) simp_all

lemma write_directory_eq:
  "length imgs = length offs \<Longrightarrow> offset + 16 * length imgs \<le> length buffer \<Longrightarrow>
   write_directory imgs offs offset buffer =
     (if list_all2 entry_ok imgs offs
      then Inr (overwrite offset (concat (map2 dir_entry imgs offs)) buffer)
      else Inl RangeError)"
proof (induction imgs offs offset buffer rule: write_directory.induct)
  case (1 img imgs imageOffset offs offset buffer)
  have len: "offset + 16 \<le> length buffer" using 1 by simp
  have step: "write_directory (img # imgs) (imageOffset # offs) offset buffer =
      (if entry_ok img imageOffset
       then write_directory imgs offs (offset + 16) (overwrite offset (dir_entry img imageOffset) buffer)
       else Inl RangeError)"
    unfolding write_directory.simps by (rule write_entry [OF len])
  have rest: "offset + 16 + 16 * length imgs \<le> length (overwrite offset (dir_entry img imageOffset) buffer)"
    using 1 by (simp add: length_overwrite)
  show ?case
    unfolding step using 1 rest len
    by (simp add: overwrite_overwrite length_overwrite)
qed (simp_all add: overwrite_def)

lemma image_offsets_length: "length (fst (image_offsets off imgs)) = length imgs"
  by (induction imgs arbitrary: off) (simp_all add: split_beta)

lemma image_offsets_total: "snd (image_offsets off imgs) = off + length (concat (map data imgs))"
  by (induction imgs arbitrary: off) (simp_all add: split_beta)

lemma copy_images_eq:
  "off + length (concat (map data imgs)) \<le> length buffer \<Longrightarrow>
   copy_images imgs (fst (image_offsets off imgs)) buffer =
     overwrite off (concat (map data imgs)) buffer"
proof (induction imgs arbitrary: off buffer)
  case Nil
  then show ?case by (simp add: overwrite_def)
next
  case (Cons img imgs)
  then show ?case
    by (simp add: split_beta buffer_copy_eq length_overwrite overwrite_overwrite)
qed

lemma data_collect_images [simp]: "map data (collect_images pngs sizes) = pngs"
  by (induction pngs sizes rule: collect_images.induct) (simp_all add: Let_def)

lemma length_collect_images [simp]: "length (collect_images pngs sizes) = length pngs"
  by (induction pngs sizes rule: collect_images.induct) (simp_all add: Let_def)

lemma createIco_eq:
  "createIco pngBuffers sizes =
     (if ico_ok pngBuffers sizes
      then Inr (ico_header (length pngBuffers) @ ico_directory pngBuffers sizes @ concat pngBuffers)
      else Inl RangeError)"
proof -
  define images where "images = collect_images pngBuffers sizes"
  define offs where "offs = fst (image_offsets (6 + 16 * length images) images)"
  define total where "total = 6 + 16 * length images + length (concat pngBuffers)"
  have io: "image_offsets (6 + 16 * length images) images = (offs, total)"
    by (simp add: offs_def total_def prod_eq_iff image_offsets_total images_def)
  have lo: "length images = length offs" by (simp add: offs_def image_offsets_length)
  have ln: "length images = length pngBuffers" by (simp add: images_def)
  have hdr: "bind_err (writeUInt16LE 0 0 (Buffer_alloc total)) (\<lambda>buffer.
         bind_err (writeUInt16LE 1 2 buffer) (\<lambda>buffer.
         bind_err (writeUInt16LE (int (length images)) 4 buffer) k))
      = (if length images \<le> 65535 then k (overwrite 0 (ico_header (length images)) (Buffer_alloc total))
         else Inl RangeError)" for k :: "buffer \<Rightarrow> error + buffer"
    by (simp add: writeUInt16LE_eq total_def Buffer_alloc_def length_overwrite overwrite_overwrite ico_header_def)
  have "createIco pngBuffers sizes =
     (if length images \<le> 65535 then
         bind_err (write_directory images offs 6 (overwrite 0 (ico_header (length images)) (Buffer_alloc total)))
           (\<lambda>buffer. Inr (copy_images images offs buffer))
      else Inl RangeError)"
    unfolding createIco_def Let_def images_def [symmetric] io prod.case by (rule hdr)
  also have "\<dots> = (if length images \<le> 65535 \<and> list_all2 entry_ok images offs
      then Inr (overwrite 0 (ico_header (length images) @ concat (map2 dir_entry images offs) @ concat pngBuffers)
               (Buffer_alloc total))
      else Inl RangeError)"
    using lo ln 
    by (simp add: write_directory_eq length_overwrite ico_header_def total_def Buffer_alloc_def
        overwrite_overwrite offs_def copy_images_eq images_def)
  finally have main: "createIco pngBuffers sizes =
      (if length images \<le> 65535 \<and> list_all2 entry_ok images offs
       then Inr (overwrite 0 (ico_header (length images) @ concat (map2 dir_entry images offs) @ concat pngBuffers)
               (Buffer_alloc total))
       else Inl RangeError)" .
  have ok: "ico_ok pngBuffers sizes \<longleftrightarrow> length images \<le> 65535 \<and> list_all2 entry_ok images offs"
    unfolding ico_ok_def Let_def images_def offs_def ..
  have dir: "ico_directory pngBuffers sizes = concat (map2 dir_entry images offs)"
    unfolding ico_directory_def Let_def images_def offs_def ..
  have len: "length (ico_header (length images) @ concat (map2 dir_entry images offs) @ concat pngBuffers)
      = length (Buffer_alloc total)"
    using lo by (simp add: total_def Buffer_alloc_def ico_header_def)
  show ?thesis
    unfolding main ok dir overwrite_all [OF len] by (simp add: ln)
qed

section \<open>The ICNS encoder computes the ICNS layout\<close>

lemma length_ascii_bytes [simp]: "length (ascii_bytes s) = length s"
  by (simp add: ascii_bytes_def)

lemma length_icns_chunk: "length (icns_chunk t png) = length t + 4 + length png"
  by (simp add: icns_chunk_def)

lemma buffer_write_eq:
  "length s = len \<Longrightarrow> offset + len \<le> length buf \<Longrightarrow>
   buffer_write s offset len buf = Inr (overwrite offset (ascii_bytes s) buf)"
  by (auto simp: buffer_write_def buffer_copy_eq)

lemma make_chunk_eq:
  "length typeCode = 4 \<Longrightarrow>
   make_chunk typeCode png =
     (if 8 + length png \<le> 4294967295 then Inr (icns_chunk typeCode png) else Inl RangeError)"
  by (simp add: make_chunk_def Let_def Buffer_alloc_def buffer_write_eq writeUInt32BE_eq
      length_overwrite overwrite_overwrite buffer_copy_eq overwrite_all icns_chunk_def)

lemma collect_chunks_eq:
  "\<forall>(sz, t) \<in> set entries. length t = 4 \<Longrightarrow>
   collect_chunks entries m chunks =
     (if chunks_ok (present_entries entries m)
      then Inr (chunks @ map (\<lambda>(t, png). icns_chunk t png) (present_entries entries m))
      else Inl RangeError)"
proof (induction entries m chunks rule: collect_chunks.induct)
  case (1 pngsBySize chunks)
  then show ?case by (simp add: chunks_ok_def)
next
  case (2 sz typeCode entries pngsBySize chunks)
  then show ?case
    by (cases "pngsBySize sz") (simp_all add: make_chunk_eq chunks_ok_def)
qed

lemma foldl_length: "foldl (\<lambda>sum chunk. sum + length chunk) a chunks = a + length (concat chunks)"
  by (induction chunks arbitrary: a) simp_all

lemma copy_chunks_eq:
  "offset + length (concat chunks) \<le> length icns \<Longrightarrow>
   copy_chunks chunks offset icns = overwrite offset (concat chunks) icns"
proof (induction chunks arbitrary: offset icns)
  case Nil
  then show ?case by (simp add: overwrite_def)
next
  case (Cons chunk chunks)
  then show ?case
    by (simp add: buffer_copy_eq length_overwrite overwrite_overwrite)
qed

lemma icnsTypes_codes: "\<forall>(sz, t) \<in> set icnsTypes. length t = 4"
  by (simp add: icnsTypes_def)

lemma chunks_ok_total:
  "\<not> chunks_ok tps \<Longrightarrow> \<forall>(t, png) \<in> set tps. length t = 4 \<Longrightarrow> 
   \<not> 8 + length (concat (map (\<lambda>(t, png). icns_chunk t png) tps)) \<le> 4294967295"
  by (induction tps) (auto simp: chunks_ok_def length_icns_chunk)

lemma present_entries_codes:
  "\<forall>(sz, t) \<in> set entries. length t = 4 \<Longrightarrow> \<forall>(t, png) \<in> set (present_entries entries m). length t = 4"
  by (induction entries m rule: present_entries.induct) (auto split: option.splits)

lemma createIcns_eq:
  "createIcns m =
     (if 8 + length (icns_body m) \<le> 4294967295
      then Inr (ascii_bytes ''icns'' @ be32 (int (8 + length (icns_body m))) @ icns_body m)
      else Inl RangeError)"
proof (cases "chunks_ok (present_entries icnsTypes m)")
  case False
  from chunks_ok_total [OF False present_entries_codes [OF icnsTypes_codes]]
  have "\<not> 8 + length (icns_body m) \<le> 4294967295" by (simp add: icns_body_def)
  with False show ?thesis
    by (simp add: createIcns_def collect_chunks_eq [OF icnsTypes_codes])
next
  case True
  then show ?thesis
    by (simp add: createIcns_def collect_chunks_eq [OF icnsTypes_codes] Let_def foldl_length
        icns_body_def [symmetric] Buffer_alloc_def buffer_write_eq writeUInt32BE_eq
        length_overwrite overwrite_overwrite copy_chunks_eq overwrite_all)
qed

section \<open>Fields read back\<close>

lemma uint_byte: "uint (word_of_int n :: byte) = n mod 256"
  by (simp add: uint_word_of_int)

lemma split16: "0 \<le> n \<Longrightarrow> n \<le> 65535 \<Longrightarrow> n mod 256 + 256 * (n div 256 mod 256) = (n::int)"
  by simp

lemma split32:
  assumes "0 \<le> n" "n \<le> 4294967295"
  shows "n mod 256 + 256 * (n div 256 mod 256) + 65536 * (n div 65536 mod 256)
         + 16777216 * (n div 16777216 mod 256) = (n::int)"
proof -
  have a: "n div 16777216 mod 256 = n div 16777216" using assms by simp
  have e: "n div 65536 div 256 = n div 16777216" "n div 256 div 256 = n div 65536"
    by (simp_all add: zdiv_zmult2_eq [symmetric])
  have b: "n div 65536 = 256 * (n div 16777216) + n div 65536 mod 256"
    unfolding e [symmetric] by (rule mult_div_mod_eq [symmetric])
  have c: "n div 256 = 256 * (n div 65536) + n div 256 mod 256"
    unfolding e [symmetric] by (rule mult_div_mod_eq [symmetric])
  have d: "n = 256 * (n div 256) + n mod 256" by simp
  show ?thesis using a b c d by linarith
qed

lemma split32_be:
  assumes "0 \<le> n" "n \<le> 4294967295"
  shows "16777216 * (n div 16777216 mod 256) + 65536 * (n div 65536 mod 256)
         + 256 * (n div 256 mod 256) + n mod 256 = (n::int)"
proof -
  define a b c d where "a = n mod 256" and "b = 256 * (n div 256 mod 256)"
    and "c = 65536 * (n div 65536 mod 256)" and "d = 16777216 * (n div 16777216 mod 256)"
  have "a + b + c + d = n" unfolding a_def b_def c_def d_def by (rule split32 [OF assms])
  then have "d + c + b + a = n" by simp
  then show ?thesis unfolding a_def b_def c_def d_def .
qed

lemma nth_field:
  "(pre @ (a # b # c # d # post)) ! (length pre) = a"
  "(pre @ (a # b # c # d # post)) ! (length pre + 1) = b"
  "(pre @ (a # b # c # d # post)) ! (length pre + 2) = c"
  "(pre @ (a # b # c # d # post)) ! (length pre + 3) = d"
  by (simp_all add: nth_append)

lemma read_le16:
  assumes "0 \<le> n" "n \<le> 65535" "length pre = offset"
  shows "readUInt16LE (pre @ le16 n @ post) offset = n"
proof -
  have "readUInt16LE (pre @ le16 n @ post) (length pre) = n mod 256 + 256 * (n div 256 mod 256)"
    by (simp add: readUInt16LE_def le16_def uint_byte nth_append)
  also have "\<dots> = n" by (rule split16 [OF assms(1,2)])
  finally show ?thesis using assms(3) by simp
qed

lemma read_le32:
  assumes "0 \<le> n" "n \<le> 4294967295" "length pre = offset"
  shows "readUInt32LE (pre @ le32 n @ post) offset = n"
proof -
  have "readUInt32LE (pre @ le32 n @ post) (length pre) =
      n mod 256 + 256 * (n div 256 mod 256) + 65536 * (n div 65536 mod 256)
         + 16777216 * (n div 16777216 mod 256)"
    unfolding readUInt32LE_def le32_def append_Cons append_Nil nth_field uint_byte ..
  also have "\<dots> = n" by (rule split32 [OF assms(1,2)])
  finally show ?thesis using assms(3) by simp
qed

lemma read_be32:
  assumes "0 \<le> n" "n \<le> 4294967295" "length pre = offset"
  shows "readUInt32BE (pre @ be32 n @ post) offset = n"
proof -
  have "readUInt32BE (pre @ be32 n @ post) (length pre) =
      16777216 * (n div 16777216 mod 256) + 65536 * (n div 65536 mod 256)
         + 256 * (n div 256 mod 256) + n mod 256"
    unfolding readUInt32BE_def be32_def append_Cons append_Nil nth_field uint_byte ..
  also have "\<dots> = n" by (rule split32_be [OF assms(1,2)])
  finally show ?thesis using assms(3) by simp
qed

section \<open>Directory entries and data blocks of an ICO file\<close>

lemma nth_collect_images:
  "i < length pngs \<Longrightarrow>
   collect_images pngs sizes ! i =
     \<lparr>width = (if i < length sizes then Some (sizes ! i) else None),
      height = (if i < length sizes then Some (sizes ! i) else None),
      data = pngs ! i\<rparr>"
proof (induction pngs sizes arbitrary: i rule: collect_images.induct)
  case (1 sizes)
  then show ?case by simp
next
  case (2 png pngs sizes)
  show ?case
  proof (cases i)
    case 0
    then show ?thesis by (cases sizes) (simp_all add: Let_def)
  next
    case (Suc j)
    with 2 show ?thesis by (cases sizes) (simp_all add: Let_def)
  qed
qed

lemma nth_image_offsets:
  "i < length imgs \<Longrightarrow>
   fst (image_offsets off imgs) ! i = off + length (concat (take i (map data imgs)))"
proof (induction imgs arbitrary: off i)
  case Nil
  then show ?case by simp
next
  case (Cons img imgs)
  then show ?case by (cases i) (simp_all add: split_beta)
qed

lemma concat_nth_split:
  "i < length xss \<Longrightarrow> concat xss = concat (take i xss) @ xss ! i @ concat (drop (Suc i) xss)"
  using id_take_nth_drop [of i xss] concat_append [of "take i xss" "xss ! i # drop (Suc i) xss"]
  by simp

lemma length_concat_blocks:
  "\<forall>xs \<in> set xss. length xs = k \<Longrightarrow> length (concat xss) = k * length xss"
  by (induction xss) simp_all

lemma createIco_Inr:
  assumes "createIco pngs sizes = Inr buf"
  shows "ico_ok pngs sizes"
    and "buf = ico_header (length pngs) @ ico_directory pngs sizes @ concat pngs"
  using assms by (simp_all add: createIco_eq split: if_splits)

lemma ico_directory_length [simp]: "length (ico_directory pngs sizes) = 16 * length pngs"
  by (simp add: ico_directory_def Let_def image_offsets_length)

lemma ico_header_length [simp]: "length (ico_header n) = 6"
  by (simp add: ico_header_def)

lemma ico_directory_split:
  assumes "i < length pngs"
  shows "\<exists>pre post. ico_directory pngs sizes =
           pre @ dir_entry (collect_images pngs sizes ! i)
                  (6 + 16 * length pngs + length (concat (take i pngs))) @ post
         \<and> length pre = 16 * i"
proof -
  define images where "images = collect_images pngs sizes"
  define offs where "offs = fst (image_offsets (6 + 16 * length images) images)"
  define entries where "entries = map2 dir_entry images offs"
  have li: "length images = length pngs" by (simp add: images_def)
  have lo: "length offs = length pngs" by (simp add: offs_def image_offsets_length li)
  have le: "length entries = length pngs" by (simp add: entries_def li lo)
  have dir: "ico_directory pngs sizes = concat entries"
    by (simp add: ico_directory_def Let_def entries_def offs_def images_def)
  have off: "offs ! i = 6 + 16 * length pngs + length (concat (take i pngs))"
    using assms nth_image_offsets [of i images "6 + 16 * length images"]
    by (simp add: offs_def li images_def)
  have ei: "entries ! i = dir_entry (images ! i) (offs ! i)"
    using assms by (simp add: entries_def li lo)
  have "\<forall>e \<in> set (take i entries). length e = 16"
    by (auto simp: entries_def dest!: in_set_takeD set_zip_leftD)
  then have lp: "length (concat (take i entries)) = 16 * i"
    using assms le length_concat_blocks [of "take i entries" 16] by simp
  from assms le have "concat entries = concat (take i entries) @ entries ! i @ concat (drop (Suc i) entries)"
    by (intro concat_nth_split) simp
  with dir ei off lp show ?thesis unfolding images_def by metis
qed

lemma ico_entry_ok:
  assumes "ico_ok pngs sizes" "i < length pngs"
  shows "entry_ok (collect_images pngs sizes ! i) (6 + 16 * length pngs + length (concat (take i pngs)))"
proof -
  define images where "images = collect_images pngs sizes"
  define offs where "offs = fst (image_offsets (6 + 16 * length images) images)"
  have li: "length images = length pngs" by (simp add: images_def)
  have "list_all2 entry_ok images offs"
    using assms(1) by (simp add: ico_ok_def Let_def images_def offs_def)
  then have "entry_ok (images ! i) (offs ! i)"
    using assms(2) li by (simp add: list_all2_nthD)
  moreover have "offs ! i = 6 + 16 * length pngs + length (concat (take i pngs))"
    using assms(2) nth_image_offsets [of i images "6 + 16 * length images"]
    by (simp add: offs_def li images_def)
  ultimately show ?thesis by (simp add: images_def)
qed

lemma dir_entry_fields:
  "dir_entry img off =
     [u8 (dimension (width img)), u8 (dimension (height img)), 0, 0, 1, 0, 32, 0]
     @ le32 (int (length (data img))) @ le32 (int off)"
  by (simp add: dir_entry_def le16_def)

lemma createIco_entry:
  assumes "createIco pngs sizes = Inr buf" "i < length pngs"
  shows "\<exists>pre post. buf = pre @ dir_entry (collect_images pngs sizes ! i)
                  (6 + 16 * length pngs + length (concat (take i pngs))) @ post
         \<and> length pre = 6 + 16 * i"
proof -
  from ico_directory_split [OF assms(2), of sizes] obtain pre post where
    d: "ico_directory pngs sizes =
           pre @ dir_entry (collect_images pngs sizes ! i)
                  (6 + 16 * length pngs + length (concat (take i pngs))) @ post"
    and l: "length pre = 16 * i" by blast
  have "buf = (ico_header (length pngs) @ pre) @ dir_entry (collect_images pngs sizes ! i)
                  (6 + 16 * length pngs + length (concat (take i pngs))) @ (post @ concat pngs)"
    using createIco_Inr(2) [OF assms(1)] d by simp
  moreover have "length (ico_header (length pngs) @ pre) = 6 + 16 * i" using l by simp
  ultimately show ?thesis by blast
qed

lemma createIco_dimension_bytes:
  assumes "createIco pngs sizes = Inr buf" "i < length pngs" "i < length sizes"
  shows "buf ! (6 + 16 * i) = u8 (dimension (Some (sizes ! i)))"
    and "buf ! (6 + 16 * i + 1) = u8 (dimension (Some (sizes ! i)))"
proof -
  from createIco_entry [OF assms(1,2)] obtain pre post where
    b: "buf = pre @ dir_entry (collect_images pngs sizes ! i)
                  (6 + 16 * length pngs + length (concat (take i pngs))) @ post"
    and l: "length pre = 6 + 16 * i" by blast
  have w: "width (collect_images pngs sizes ! i) = Some (sizes ! i)"
       "height (collect_images pngs sizes ! i) = Some (sizes ! i)"
    using assms(2,3) by (simp_all add: nth_collect_images)
  show "buf ! (6 + 16 * i) = u8 (dimension (Some (sizes ! i)))"
    unfolding b dir_entry_fields w l [symmetric] by (simp add: nth_append)
  show "buf ! (6 + 16 * i + 1) = u8 (dimension (Some (sizes ! i)))"
    unfolding b dir_entry_fields w l [symmetric] by (simp add: nth_append)
qed

lemma u8_dimension_large: "256 \<le> s \<Longrightarrow> u8 (dimension (Some s)) = 0"
  by (simp add: u8_def dimension_def)

lemma u8_dimension_small: "0 \<le> s \<Longrightarrow> s \<le> 255 \<Longrightarrow> uint (u8 (dimension (Some s))) = s"
  by (simp add: u8_def dimension_def uint_byte)

lemma createIco_data_fields:
  assumes "createIco pngs sizes = Inr buf" "i < length pngs"
  shows "readUInt32LE buf (6 + 16 * i + 8) = int (length (pngs ! i))"
    and "readUInt32LE buf (6 + 16 * i + 12) =
           int (6 + 16 * length pngs + length (concat (take i pngs)))"
proof -
  define off where "off = 6 + 16 * length pngs + length (concat (take i pngs))"
  define img where "img = collect_images pngs sizes ! i"
  from createIco_entry [OF assms] obtain pre post where
    b: "buf = pre @ dir_entry img off @ post"
    and l: "length pre = 6 + 16 * i" unfolding off_def img_def by blast
  have d: "data img = pngs ! i" using assms(2) by (simp add: img_def nth_collect_images)
  have ok: "entry_ok img off"
    using ico_entry_ok [OF createIco_Inr(1) [OF assms(1)] assms(2)] by (simp add: img_def off_def)
  define hd8 where "hd8 = [u8 (dimension (width img)), u8 (dimension (height img)), 0, 0, 1, 0, 32, 0]"
  have b1: "buf = (pre @ hd8) @ le32 (int (length (pngs ! i))) @ (le32 (int off) @ post)"
    unfolding b dir_entry_fields hd8_def d by simp
  have b2: "buf = (pre @ hd8 @ le32 (int (length (pngs ! i)))) @ le32 (int off) @ post"
    unfolding b dir_entry_fields hd8_def d by simp
  have l1: "length (pre @ hd8) = 6 + 16 * i + 8" by (simp add: l hd8_def)
  have l2: "length (pre @ hd8 @ le32 (int (length (pngs ! i)))) = 6 + 16 * i + 12" by (simp add: l hd8_def)
  have r1: "int (length (pngs ! i)) \<le> 4294967295" using ok d by (simp add: entry_ok_def)
  have r2: "int off \<le> 4294967295" using ok by (simp add: entry_ok_def)
  show "readUInt32LE buf (6 + 16 * i + 8) = int (length (pngs ! i))"
    by (subst b1) (rule read_le32 [OF _ r1 l1], simp)
  show "readUInt32LE buf (6 + 16 * i + 12) = int (6 + 16 * length pngs + length (concat (take i pngs)))"
    unfolding off_def [symmetric] by (subst b2) (rule read_le32 [OF _ r2 l2], simp)
qed

lemma createIco_data_block:
  assumes "createIco pngs sizes = Inr buf"
  shows "drop (6 + 16 * length pngs) buf = concat pngs"
    and "i < length pngs \<Longrightarrow>
         take (length (pngs ! i)) (drop (6 + 16 * length pngs + length (concat (take i pngs))) buf) = pngs ! i"
proof -
  have b: "buf = (ico_header (length pngs) @ ico_directory pngs sizes) @ concat pngs"
    using createIco_Inr(2) [OF assms] by simp
  have l: "length (ico_header (length pngs) @ ico_directory pngs sizes) = 6 + 16 * length pngs"
    by simp
  show "drop (6 + 16 * length pngs) buf = concat pngs"
    by (subst b, subst l [symmetric]) simp
  assume i: "i < length pngs"
  have b': "buf = ((ico_header (length pngs) @ ico_directory pngs sizes) @ concat (take i pngs))
      @ pngs ! i @ concat (drop (Suc i) pngs)"
    by (subst b, subst concat_nth_split [OF i]) simp
  have l': "length ((ico_header (length pngs) @ ico_directory pngs sizes) @ concat (take i pngs))
      = 6 + 16 * length pngs + length (concat (take i pngs))"
    by simp
  show "take (length (pngs ! i)) (drop (6 + 16 * length pngs + length (concat (take i pngs))) buf) = pngs ! i"
    by (subst b', subst l' [symmetric]) simp
qed

lemma u8_ok_dimension: "0 \<le> s \<Longrightarrow> u8_ok (dimension (Some s))"
  by (simp add: u8_ok_def dimension_def)

lemma u8_ok_dimension_None: "u8_ok (dimension None)"
  by (simp add: u8_ok_def dimension_def)

lemma ico_okI:
  assumes n: "length pngs \<le> 65535"
    and s: "\<forall>i < length pngs. i < length sizes \<longrightarrow> 0 \<le> sizes ! i"
    and f: "\<forall>i < length pngs. length (pngs ! i) \<le> 4294967295 \<and>
              6 + 16 * length pngs + length (concat (take i pngs)) \<le> 4294967295"
  shows "ico_ok pngs sizes"
proof -
  define images where "images = collect_images pngs sizes"
  define offs where "offs = fst (image_offsets (6 + 16 * length images) images)"
  have li: "length images = length pngs" by (simp add: images_def)
  have lo: "length offs = length pngs" by (simp add: offs_def image_offsets_length li)
  have "entry_ok (images ! i) (offs ! i)" if i: "i < length pngs" for i
  proof -
    have o: "offs ! i = 6 + 16 * length pngs + length (concat (take i pngs))"
      using i nth_image_offsets [of i images "6 + 16 * length images"]
      by (simp add: offs_def li images_def)
    have im: "images ! i = \<lparr>width = (if i < length sizes then Some (sizes ! i) else None),
        height = (if i < length sizes then Some (sizes ! i) else None), data = pngs ! i\<rparr>"
      using i by (simp add: images_def nth_collect_images)
    show ?thesis
      using s f i by (simp add: entry_ok_def o im u8_ok_dimension u8_ok_dimension_None)
  qed
  then have "list_all2 entry_ok images offs"
    using li lo by (simp add: list_all2_conv_all_nth)
  then show ?thesis
    using n by (simp add: ico_ok_def Let_def images_def offs_def)
qed

lemma createIco_header:
  assumes "createIco pngs sizes = Inr buf"
  shows "length buf = 6 + 16 * length pngs + sum_list (map length pngs)"
    and "readUInt16LE buf 0 = 0" and "readUInt16LE buf 2 = 1"
    and "readUInt16LE buf 4 = int (length pngs)"
proof -
  note b = createIco_Inr(2) [OF assms]
  have n: "int (length pngs) \<le> 65535"
    using createIco_Inr(1) [OF assms] by (simp add: ico_ok_def Let_def)
  show "length buf = 6 + 16 * length pngs + sum_list (map length pngs)"
    by (simp add: b length_concat)
  define rest where "rest = ico_directory pngs sizes @ concat pngs"
  have b0: "buf = [] @ le16 0 @ (le16 1 @ le16 (int (length pngs)) @ rest)"
    by (simp add: b ico_header_def rest_def)
  have b2: "buf = le16 0 @ le16 1 @ (le16 (int (length pngs)) @ rest)"
    by (simp add: b ico_header_def rest_def)
  have b4: "buf = (le16 0 @ le16 1) @ le16 (int (length pngs)) @ rest"
    by (simp add: b ico_header_def rest_def)
  show "readUInt16LE buf 0 = 0" by (subst b0) (rule read_le16, simp_all)
  show "readUInt16LE buf 2 = 1" by (subst b2) (rule read_le16, simp_all)
  show "readUInt16LE buf 4 = int (length pngs)" by (subst b4) (rule read_le16 [OF _ n], simp_all)
qed

section \<open>Chunks of an ICNS file\<close>

lemma present_entries_filter:
  "present_entries entries m =
     map (\<lambda>(sz, t). (t, the (m sz))) (filter (\<lambda>(sz, t). m sz \<noteq> None) entries)"
  by (induction entries m rule: present_entries.induct) (auto split: option.splits)

lemma present_encoded:
  "present_entries icnsTypes m = map (\<lambda>(sz, t, png). (t, png)) (encoded_entries m)"
  by (simp add: present_entries_filter encoded_entries_def split_beta)

lemma icns_body_encoded:
  "icns_body m = concat (map (\<lambda>(sz, t, png). icns_chunk t png) (encoded_entries m))"
  by (simp add: icns_body_def present_encoded case_prod_unfold o_def)

lemma createIcns_Inr:
  assumes "createIcns m = Inr out"
  shows "8 + length (icns_body m) \<le> 4294967295"
    and "out = ascii_bytes ''icns'' @ be32 (int (8 + length (icns_body m))) @ icns_body m"
  using assms by (simp_all add: createIcns_eq split: if_splits)

lemma createIcns_header:
  assumes "createIcns m = Inr out"
  shows "take 4 out = ascii_bytes ''icns''" and "readUInt32BE out 4 = int (length out)"
    and "drop 8 out = icns_body m"
proof -
  note b = createIcns_Inr(2) [OF assms]
  show "take 4 out = ascii_bytes ''icns''" by (subst b) simp
  show "drop 8 out = icns_body m" by (subst b) simp
  have l: "int (length out) = int (8 + length (icns_body m))" by (subst b) simp
  have r: "int (8 + length (icns_body m)) \<le> 4294967295"
    using createIcns_Inr(1) [OF assms] by simp
  show "readUInt32BE out 4 = int (length out)"
    unfolding l by (subst b) (rule read_be32 [OF _ r], simp_all)
qed

lemma is_chunk_icns_chunk:
  assumes "length t = 4" "8 + length png \<le> 4294967295"
  shows "is_chunk (icns_chunk t png) t png"
proof -
  have r: "int (8 + length png) \<le> 4294967295" using assms(2) by simp
  have "readUInt32BE (ascii_bytes t @ be32 (int (8 + length png)) @ png) 4 = int (8 + length png)"
    by (rule read_be32 [OF _ r]) (simp_all add: assms(1))
  then show ?thesis using assms(1) by (simp add: is_chunk_def icns_chunk_def)
qed

lemma chunk_le_body:
  "(sz, t, png) \<in> set es \<Longrightarrow>
   length (icns_chunk t png) \<le> length (concat (map (\<lambda>(sz, t, png). icns_chunk t png) es))"
  by (induction es) auto

lemma encoded_entries_registry:
  "(sz, t, png) \<in> set (encoded_entries m) \<Longrightarrow> (sz, t) \<in> set icnsTypes \<and> m sz = Some png"
  by (auto simp: encoded_entries_def)

lemma encoded_entries_codes: "(sz, t, png) \<in> set (encoded_entries m) \<Longrightarrow> length t = 4"
  using icnsTypes_codes encoded_entries_registry by fastforce

lemma encoded_entries_cong:
  "\<forall>sz \<in> {16, 32, 64, 128, 256, 512, 1024}. m sz = m' sz \<Longrightarrow> encoded_entries m = encoded_entries m'"
  by (simp add: encoded_entries_def icnsTypes_def)

lemma createIcns_cong:
  "\<forall>sz \<in> {16, 32, 64, 128, 256, 512, 1024}. m sz = m' sz \<Longrightarrow> createIcns m = createIcns m'"
  using encoded_entries_cong [of m m'] by (simp add: createIcns_eq icns_body_encoded)

lemma encoded_entries_sizes:
  "map fst (encoded_entries m) = filter (\<lambda>sz. sz \<in> dom m) [16, 32, 64, 128, 256, 512, 1024]"
  by (simp add: encoded_entries_def icnsTypes_def dom_def)

lemma encoded_entries_total:
  "length (icns_body m) =
     sum_list (map (\<lambda>sz. case m sz of None \<Rightarrow> 0 | Some png \<Rightarrow> 8 + length png)
       [16, 32, 64, 128, 256, 512, 1024])"
  by (simp add: icns_body_encoded encoded_entries_def icnsTypes_def length_icns_chunk
      split: option.splits)

lemma populate_map_of:
  assumes "distinct (map fst kvs)"
  shows "populate kvs = map_of kvs"
proof -
  define store :: "(int \<rightharpoonup> buffer) \<Rightarrow> int \<times> buffer \<Rightarrow> (int \<rightharpoonup> buffer)"
    where "store = (\<lambda>pngs (sz, png). pngs(sz \<mapsto> png))"
  have store: "store m (k, v) = m(k \<mapsto> v)" for m k v by (simp add: store_def)
  have "foldl store m kvs = m ++ map_of kvs" for m
    using assms
  proof (induction kvs arbitrary: m)
    case Nil
    then show ?case by simp
  next
    case (Cons kv kvs)
    obtain k v where kv: "kv = (k, v)" by (cases kv)
    from Cons.prems kv have "map_of kvs k = None"
      by (simp add: map_of_eq_None_iff)
    then have b: "m(k \<mapsto> v) ++ map_of kvs = m ++ (map_of kvs)(k \<mapsto> v)"
      by (auto simp: map_add_def fun_eq_iff split: option.splits)
    have a: "foldl store m (kv # kvs) = m(k \<mapsto> v) ++ map_of kvs"
      using Cons kv by (simp add: store)
    have c: "map_of (kv # kvs) = (map_of kvs)(k \<mapsto> v)" by (simp add: kv)
    show ?case unfolding a b c ..
  qed
  then show ?thesis by (simp add: populate_def store_def)
qed

lemma populate_permutation:
  assumes "distinct (map fst kvs)" "mset kvs = mset kvs'"
  shows "populate kvs = populate kvs'"
proof -
  have "mset (map fst kvs) = mset (map fst kvs')" using assms(2) by (metis mset_map)
  then have d': "distinct (map fst kvs')"
    using assms(1) by (metis mset_eq_imp_distinct_iff)
  have s: "set kvs = set kvs'" using assms(2) by (rule mset_eq_setD)
  have "map_of kvs = map_of kvs'"
    using assms(1) d' s by (simp add: map_of_inject_set)
  then show ?thesis
    using assms(1) d' by (simp add: populate_map_of)
qed

lemma icnsTypes_registry: "map_of icnsTypes = type_code_registry"
  by (rule ext) (simp add: icnsTypes_def type_code_registry_def)

section \<open>Sizes from 256 on\<close>







section \<open>The encoders on the store\<close>

text \<open>
  Every write of an encoder goes to a buffer the encoder allocated itself, so the
  objects that existed before the call are preserved.
\<close>

lemma preserves_return: "P x \<Longrightarrow> preserves n P (return_io x)"
  by (simp add: preserves_def return_io_def)

lemma preserves_bind:
  assumes "preserves n P m" "\<And>x. P x \<Longrightarrow> preserves n Q (f x)"
  shows "preserves n Q (bind_io m f)"
  unfolding preserves_def
proof (intro allI impI)
  fix h :: heap assume h: "n \<le> length h"
  obtain r h' where m: "m h = (r, h')" by (cases "m h")
  from assms(1) h m have 1: "n \<le> length h'" "take n h' = take n h"
    and r: "case r of Inl e \<Rightarrow> True | Inr x \<Rightarrow> P x"
    by (auto simp: preserves_def)
  show "case bind_io m f h of (r, h') \<Rightarrow>
          n \<le> length h' \<and> take n h' = take n h \<and> (case r of Inl e \<Rightarrow> True | Inr x \<Rightarrow> Q x)"
  proof (cases r)
    case (Inl e)
    with m 1 show ?thesis by (simp add: bind_io_def)
  next
    case (Inr x)
    with r have "P x" by simp
    from assms(2) [OF this] 1(1) have "case f x h' of (r, h'') \<Rightarrow>
          n \<le> length h'' \<and> take n h'' = take n h' \<and> (case r of Inl e \<Rightarrow> True | Inr x \<Rightarrow> Q x)"
      by (simp add: preserves_def)
    with m Inr 1(2) show ?thesis by (simp add: bind_io_def split: prod.splits)
  qed
qed

lemma preserves_alloc: "preserves n (\<lambda>a. n \<le> a) (heap_alloc k)"
  by (simp add: preserves_def heap_alloc_def)

lemma preserves_length: "preserves n (\<lambda>_. True) (heap_length a)"
  by (simp add: preserves_def heap_length_def)

lemma preserves_write: "n \<le> a \<Longrightarrow> preserves n (\<lambda>_. True) (heap_write a w)"
  by (simp add: preserves_def heap_write_def split: sum.splits)

lemma preserves_copy: "n \<le> a \<Longrightarrow> preserves n (\<lambda>_. True) (heap_copy s a k)"
  by (simp add: preserves_def heap_copy_def)

lemmas preserves_step =
  preserves_bind [OF preserves_write] preserves_bind [OF preserves_copy]
  preserves_bind [OF preserves_length]

lemma preserves_image_offsets: "preserves n (\<lambda>_. True) (image_offsets_h off imgs)"
proof (induction imgs arbitrary: off)
  case Nil
  show ?case by (simp add: preserves_return)
next
  case (Cons img imgs)
  show ?case
    unfolding image_offsets_h.simps
    by (intro preserves_step preserves_bind [OF Cons]) (simp add: preserves_return split_beta)
qed

lemma preserves_write_directory:
  "n \<le> buffer \<Longrightarrow> preserves n (\<lambda>_. True) (write_directory_h imgs offs off buffer)"
proof (induction imgs offs off buffer rule: write_directory_h.induct)
  case (1 img imgs imageOffset offs offset buffer)
  show ?case
    unfolding write_directory_h.simps
    by (intro preserves_step 1)
qed (simp_all add: preserves_return)

lemma preserves_copy_images:
  "n \<le> buffer \<Longrightarrow> preserves n (\<lambda>_. True) (copy_images_h imgs offs buffer)"
proof (induction imgs offs buffer rule: copy_images_h.induct)
  case (1 img imgs imageOffset offs buffer)
  show ?case
    unfolding copy_images_h.simps
    by (intro preserves_step 1)
qed (simp_all add: preserves_return)

lemma preserves_createIco: "preserves n (\<lambda>_. True) (createIco_h pngBuffers sizes)"
  unfolding createIco_h_def Let_def
  apply (rule preserves_bind [OF preserves_image_offsets])
  apply (simp only: split_beta)
  apply (rule preserves_bind [OF preserves_alloc])
  apply (intro preserves_step preserves_bind [OF preserves_write_directory]
      preserves_bind [OF preserves_copy_images] preserves_return)
  apply simp_all
  done

lemma preserves_make_chunk: "preserves n (\<lambda>_. True) (make_chunk_h typeCode png)"
  unfolding make_chunk_h_def Let_def
  apply (rule preserves_bind [OF preserves_length])
  apply (rule preserves_bind [OF preserves_alloc])
  apply (intro preserves_step preserves_return)
  apply simp_all
  done

lemma preserves_collect_chunks:
  "preserves n (\<lambda>_. True) (collect_chunks_h entries pngsBySize chunks)"
proof (induction entries pngsBySize chunks rule: collect_chunks_h.induct)
  case (1 pngsBySize chunks)
  show ?case by (simp add: preserves_return)
next
  case (2 sz typeCode entries pngsBySize chunks)
  show ?case
  proof (cases "pngsBySize sz")
    case None
    with 2(1) show ?thesis by simp
  next
    case (Some png)
    with 2(2) show ?thesis
      by (simp add: preserves_bind [OF preserves_make_chunk])
  qed
qed

lemma preserves_total_chunks: "preserves n (\<lambda>_. True) (total_chunks_h acc chunks)"
  by (induction chunks arbitrary: acc)
    (simp_all add: preserves_return preserves_bind [OF preserves_length])

lemma preserves_copy_chunks:
  "n \<le> icns \<Longrightarrow> preserves n (\<lambda>_. True) (copy_chunks_h chunks offset icns)"
proof (induction chunks arbitrary: offset)
  case Nil
  show ?case by (simp add: preserves_return)
next
  case (Cons chunk chunks)
  show ?case
    unfolding copy_chunks_h.simps
    by (intro preserves_step Cons)
qed

lemma preserves_createIcns: "preserves n (\<lambda>_. True) (createIcns_h pngsBySize)"
  unfolding createIcns_h_def Let_def
  apply (rule preserves_bind [OF preserves_collect_chunks])
  apply (rule preserves_bind [OF preserves_total_chunks])
  apply (rule preserves_bind [OF preserves_alloc])
  apply (intro preserves_step preserves_bind [OF preserves_copy_chunks] preserves_return)
  apply simp_all
  done

lemma preserves_heap:
  assumes "preserves (length h) P m"
  shows "take (length h) (snd (m h)) = h"
proof -
  obtain r h' where m: "m h = (r, h')" by (cases "m h")
  from assms [unfolded preserves_def]
  have "length h \<le> length h \<longrightarrow> (case m h of (r, h') \<Rightarrow>
      length h \<le> length h' \<and> take (length h) h' = take (length h) h \<and>
      (case r of Inl e \<Rightarrow> True | Inr x \<Rightarrow> P x))"
    by (rule spec)
  with m show ?thesis by simp
qed

subsection \<open>The store model computes the same bytes\<close>

text \<open>
  On a store in which every input reference is valid, the encoders over the store
  fail exactly when \<open>createIco\<close> and \<open>createIcns\<close> fail on the referenced buffers, and
  otherwise return the address of a new object holding the bytes those compute.
\<close>

lemma sim_write:
  assumes "\<And>b'. sim h0 (m (h0 @ [b'])) (k b')"
  shows "sim h0 (bind_io (heap_write (length h0) w) (\<lambda>_. m) (h0 @ [b])) (bind_err (w b) k)"
proof (cases "w b")
  case (Inl e)
  then show ?thesis by (simp add: bind_io_def heap_write_def sim_def)
next
  case (Inr b')
  with assms [of b'] show ?thesis by (simp add: bind_io_def heap_write_def)
qed

lemma bind_length:
  "a < length h0 \<Longrightarrow> bind_io (heap_length a) f (h0 @ bs) = f (length (h0 ! a)) (h0 @ bs)"
  by (simp add: bind_io_def heap_length_def nth_append)

lemma bind_copy:
  "s < length h0 \<Longrightarrow>
   bind_io (heap_copy s (length h0) k) f (h0 @ [b]) = f () (h0 @ [buffer_copy (h0 ! s) b k])"
  by (simp add: bind_io_def heap_copy_def nth_append)

lemma sim_return: "sim h0 (return_io () (h0 @ [b])) (Inr b)"
  by (simp add: sim_def return_io_def)

lemma write_directory_h_sim:
  assumes "\<forall>img \<in> set imgs. data img < length h0"
  shows "sim h0 (write_directory_h imgs offs off (length h0) (h0 @ [b]))
           (write_directory (map (deref h0) imgs) offs off b)"
  using assms
proof (induction imgs offs off "length h0" arbitrary: b rule: write_directory_h.induct)
  case (1 img imgs imageOffset offs offset)
  then have d: "data img < length h0" and r: "\<forall>img \<in> set imgs. data img < length h0"
    by simp_all
  have w: "width (deref h0 img) = width img" "height (deref h0 img) = height img"
    "data (deref h0 img) = h0 ! data img"
    by (simp_all add: deref_def)
  show ?case
    unfolding write_directory_h.simps list.map write_directory.simps w
    apply (intro sim_write)
    apply (subst bind_length [OF d])
    apply (intro sim_write)
    apply (rule "1.hyps" [OF r])
    done
qed (simp_all add: sim_return)

lemma copy_images_h_eq:
  assumes "\<forall>img \<in> set imgs. data img < length h0"
  shows "copy_images_h imgs offs (length h0) (h0 @ [b]) =
           (Inr (), h0 @ [copy_images (map (deref h0) imgs) offs b])"
  using assms
proof (induction imgs offs "length h0" arbitrary: b rule: copy_images_h.induct)
  case (1 img imgs imageOffset offs)
  then have d: "data img < length h0" and r: "\<forall>img \<in> set imgs. data img < length h0"
    by simp_all
  show ?case
    by (simp add: bind_copy [OF d] "1.hyps" [OF r] deref_def)
qed (simp_all add: return_io_def)

lemma image_offsets_h_eq:
  assumes "\<forall>img \<in> set imgs. data img < length h"
  shows "image_offsets_h off imgs h = (Inr (image_offsets off (map (deref h) imgs)), h)"
  using assms
proof (induction imgs arbitrary: off)
  case Nil
  show ?case by (simp add: return_io_def)
next
  case (Cons img imgs)
  then show ?case
    by (simp add: bind_io_def heap_length_def return_io_def deref_def split_beta)
qed

lemma collect_images_deref:
  "map (deref h) (collect_images refs sizes) = collect_images (map ((!) h) refs) sizes"
  by (induction refs sizes rule: collect_images.induct) (simp_all add: Let_def deref_def)

lemma collect_images_valid:
  "\<forall>a \<in> set refs. a < length h \<Longrightarrow> \<forall>img \<in> set (collect_images refs sizes). data img < length h"
  by (induction refs sizes rule: collect_images.induct) (simp_all add: Let_def)

lemma sim_bind_return:
  assumes "sim h0 (m h) p"
  shows "case bind_err p Inr of
           Inl e \<Rightarrow> fst (bind_io m (\<lambda>_. return_io (length h0)) h) = Inl e
         | Inr buf \<Rightarrow> bind_io m (\<lambda>_. return_io (length h0)) h = (Inr (length h0), h0 @ [buf])"
  using assms
  by (cases p; cases "m h") (auto simp: sim_def bind_io_def return_io_def)

lemma createIco_h_refines:
  assumes "\<forall>a \<in> set pngBuffers. a < length h"
  shows "case createIco (map ((!) h) pngBuffers) sizes of
           Inl e \<Rightarrow> fst (createIco_h pngBuffers sizes h) = Inl e
         | Inr buf \<Rightarrow> createIco_h pngBuffers sizes h = (Inr (length h), h @ [buf])"
proof -
  define refs where "refs = collect_images pngBuffers sizes"
  define images where "images = map (deref h) refs"
  define offs where "offs = fst (image_offsets (6 + 16 * length images) images)"
  define total where "total = snd (image_offsets (6 + 16 * length images) images)"
  have v: "\<forall>img \<in> set refs. data img < length h"
    unfolding refs_def by (rule collect_images_valid [OF assms])
  have im: "collect_images (map ((!) h) pngBuffers) sizes = images"
    by (simp add: images_def refs_def collect_images_deref)
  have ln: "length refs = length images" by (simp add: images_def)
  have io: "image_offsets (6 + 16 * length images) images = (offs, total)"
    by (simp add: offs_def total_def)
  define m where "m = bind_io (heap_write (length h) (writeUInt16LE 0 0)) (\<lambda>_.
         bind_io (heap_write (length h) (writeUInt16LE 1 2)) (\<lambda>_.
         bind_io (heap_write (length h) (writeUInt16LE (int (length images)) 4)) (\<lambda>_.
         bind_io (write_directory_h refs offs 6 (length h)) (\<lambda>_.
         copy_images_h refs offs (length h)))))"
  define p where "p = bind_err (writeUInt16LE 0 0 (Buffer_alloc total)) (\<lambda>buffer.
         bind_err (writeUInt16LE 1 2 buffer) (\<lambda>buffer.
         bind_err (writeUInt16LE (int (length images)) 4 buffer) (\<lambda>buffer.
         bind_err (write_directory images offs 6 buffer) (\<lambda>buffer.
         Inr (copy_images images offs buffer)))))"
  have wd: "sim h (bind_io (write_directory_h refs offs 6 (length h)) (\<lambda>_. copy_images_h refs offs (length h)) (h @ [b]))
      (bind_err (write_directory images offs 6 b) (\<lambda>buffer. Inr (copy_images images offs buffer)))" for b
    using write_directory_h_sim [OF v, of offs 6 b]
    by (cases "write_directory images offs 6 b")
       (auto simp: sim_def bind_io_def images_def copy_images_h_eq [OF v] split: prod.splits)
  have s: "sim h (m (h @ [Buffer_alloc total])) p"
    unfolding m_def p_def by (intro sim_write wd)
  have pure: "createIco (map ((!) h) pngBuffers) sizes = bind_err p Inr"
    unfolding createIco_def Let_def im io prod.case p_def
    by (simp add: bind_err_def split: sum.splits)
  have heap: "createIco_h pngBuffers sizes h = bind_io m (\<lambda>_. return_io (length h)) (h @ [Buffer_alloc total])"
    unfolding createIco_h_def Let_def refs_def [symmetric]
    by (simp add: bind_io_def image_offsets_h_eq [OF v] images_def [symmetric] ln io heap_alloc_def
        m_def split: prod.splits sum.splits)
  show ?thesis
    unfolding pure heap
    using s by (rule sim_bind_return [where m = m and h = "h @ [Buffer_alloc total]"])
qed

lemma sim_copy:
  "s < length h0 \<Longrightarrow>
   sim h0 (heap_copy s (length h0) k (h0 @ [b])) (Inr (buffer_copy (h0 ! s) b k))"
  by (simp add: sim_def heap_copy_def nth_append)

lemma make_chunk_h_refines:
  assumes "png < length h"
  shows "case make_chunk typeCode (h ! png) of
           Inl e \<Rightarrow> fst (make_chunk_h typeCode png h) = Inl e \<and>
                    (\<exists>b. snd (make_chunk_h typeCode png h) = h @ [b])
         | Inr chunk \<Rightarrow> make_chunk_h typeCode png h = (Inr (length h), h @ [chunk])"
proof -
  define n where "n = 8 + length (h ! png)"
  define m where "m = bind_io (heap_write (length h) (buffer_write typeCode 0 4)) (\<lambda>_.
        bind_io (heap_write (length h) (writeUInt32BE (int n) 4)) (\<lambda>_.
        heap_copy png (length h) 8))"
  define p where "p = bind_err (buffer_write typeCode 0 4 (Buffer_alloc n)) (\<lambda>chunk.
         bind_err (writeUInt32BE (int n) 4 chunk) (\<lambda>chunk.
         Inr (buffer_copy (h ! png) chunk 8)))"
  have s: "sim h (m (h @ [Buffer_alloc n])) p"
    unfolding m_def p_def by (intro sim_write sim_copy assms)
  have pure: "make_chunk typeCode (h ! png) = p"
    by (simp add: make_chunk_def Let_def p_def n_def)
  have heap: "make_chunk_h typeCode png h =
      bind_io m (\<lambda>_. return_io (length h)) (h @ [Buffer_alloc n])"
    using assms
    by (simp add: make_chunk_h_def Let_def bind_io_def heap_length_def heap_alloc_def m_def n_def
        split: prod.splits sum.splits)
  show ?thesis
    unfolding pure heap using s
    by (cases p; cases "m (h @ [Buffer_alloc n])") (auto simp: sim_def bind_io_def return_io_def)
qed

lemma contents_append: "valid_refs h m \<Longrightarrow> contents (h @ hs) m = contents h m"
  by (auto simp: contents_def valid_refs_def fun_eq_iff nth_append map_option_case split: option.splits)

lemma valid_refs_append: "valid_refs h m \<Longrightarrow> valid_refs (h @ hs) m"
  by (auto simp: valid_refs_def intro: trans_less_add1)

lemma collect_chunks_h_refines:
  assumes "valid_refs h m" "\<forall>a \<in> set chunks. a < length h"
  shows "case collect_chunks entries (contents h m) (map ((!) h) chunks) of
           Inl e \<Rightarrow> fst (collect_chunks_h entries m chunks h) = Inl e
         | Inr cs \<Rightarrow> \<exists>addrs hs. collect_chunks_h entries m chunks h = (Inr addrs, h @ hs) \<and>
                     map ((!) (h @ hs)) addrs = cs \<and> (\<forall>a \<in> set addrs. a < length (h @ hs))"
  using assms
proof (induction entries m chunks arbitrary: h rule: collect_chunks_h.induct)
  case (1 pngsBySize chunks)
  have "\<exists>hs. h = h @ hs" by simp
  with 1 show ?case by (auto simp: return_io_def intro!: exI [of _ "[]"])
next
  case (2 sz typeCode entries pngsBySize chunks)
  show ?case
  proof (cases "pngsBySize sz")
    case None
    have heap: "collect_chunks_h ((sz, typeCode) # entries) pngsBySize chunks h =
        collect_chunks_h entries pngsBySize chunks h"
      by (simp add: None)
    have pure: "collect_chunks ((sz, typeCode) # entries) (contents h pngsBySize) (map ((!) h) chunks) =
        collect_chunks entries (contents h pngsBySize) (map ((!) h) chunks)"
      by (simp add: None contents_def)
    show ?thesis unfolding heap pure by (rule 2(1) [OF None 2(3,4)])
  next
    case (Some png)
    then have v: "png < length h" using 2(3) by (auto simp: valid_refs_def)
    have c: "contents h pngsBySize sz = Some (h ! png)" by (simp add: contents_def Some)
    show ?thesis
    proof (cases "make_chunk typeCode (h ! png)")
      case (Inl e)
      with make_chunk_h_refines [OF v, of typeCode] show ?thesis
        by (cases "make_chunk_h typeCode png h") (simp add: Some c bind_io_def)
    next
      case (Inr chunk)
      with make_chunk_h_refines [OF v, of typeCode]
      have mk: "make_chunk_h typeCode png h = (Inr (length h), h @ [chunk])" by simp
      have v': "valid_refs (h @ [chunk]) pngsBySize" by (rule valid_refs_append [OF 2(3)])
      have a': "\<forall>a \<in> set (chunks @ [length h]). a < length (h @ [chunk])"
        using 2(4) by auto
      have args: "map ((!) (h @ [chunk])) (chunks @ [length h]) = map ((!) h) chunks @ [chunk]"
        using 2(4) by (simp add: nth_append)
      note ih = 2(2) [OF Some v' a', unfolded contents_append [OF 2(3)] args]
      show ?thesis
      proof (cases "collect_chunks entries (contents h pngsBySize) (map ((!) h) chunks @ [chunk])")
        case (Inl e)
        with ih show ?thesis by (simp add: Some c Inr mk bind_io_def)
      next
        case r: (Inr cs)
        with ih obtain addrs hs where
          "collect_chunks_h entries pngsBySize (chunks @ [length h]) (h @ [chunk]) = (Inr addrs, (h @ [chunk]) @ hs)"
          "map ((!) ((h @ [chunk]) @ hs)) addrs = cs" "\<forall>a \<in> set addrs. a < length ((h @ [chunk]) @ hs)"
          by auto
        then show ?thesis
          by (simp add: Some c Inr mk bind_io_def r)
      qed
    qed
  qed
qed

lemma total_chunks_h_eq:
  "\<forall>a \<in> set addrs. a < length h \<Longrightarrow>
   total_chunks_h acc addrs h =
     (Inr (foldl (\<lambda>sum chunk. sum + length chunk) acc (map ((!) h) addrs)), h)"
  by (induction addrs arbitrary: acc) (simp_all add: return_io_def bind_io_def heap_length_def)

lemma copy_chunks_h_eq:
  "\<forall>a \<in> set addrs. a < length h0 \<Longrightarrow>
   copy_chunks_h addrs offset (length h0) (h0 @ [b]) =
     (Inr (), h0 @ [copy_chunks (map ((!) h0) addrs) offset b])"
proof (induction addrs arbitrary: offset b)
  case Nil
  show ?case by (simp add: return_io_def)
next
  case (Cons a addrs)
  then have a: "a < length h0" by simp
  from Cons show ?case
    by (simp add: bind_copy [OF a] bind_length [OF a])
qed

lemma createIcns_h_refines:
  assumes "valid_refs h pngsBySize"
  shows "case createIcns (contents h pngsBySize) of
           Inl e \<Rightarrow> fst (createIcns_h pngsBySize h) = Inl e
         | Inr out \<Rightarrow> \<exists>icns h'. createIcns_h pngsBySize h = (Inr icns, h') \<and>
                      icns < length h' \<and> h' ! icns = out"
proof (cases "collect_chunks icnsTypes (contents h pngsBySize) []")
  case (Inl e)
  with collect_chunks_h_refines [OF assms, of "[]" icnsTypes]
  have "fst (collect_chunks_h icnsTypes pngsBySize [] h) = Inl e" by simp
  then have "fst (createIcns_h pngsBySize h) = Inl e"
    by (cases "collect_chunks_h icnsTypes pngsBySize [] h") (simp add: createIcns_h_def bind_io_def)
  with Inl show ?thesis by (simp add: createIcns_def)
next
  case (Inr cs)
  with collect_chunks_h_refines [OF assms, of "[]" icnsTypes]
  obtain addrs hs where
    cc: "collect_chunks_h icnsTypes pngsBySize [] h = (Inr addrs, h @ hs)"
    and cs: "map ((!) (h @ hs)) addrs = cs"
    and va: "\<forall>a \<in> set addrs. a < length (h @ hs)"
    by auto
  define h1 where "h1 = h @ hs"
  define n where "n = 8 + foldl (\<lambda>sum chunk. sum + length chunk) 0 cs"
  define m where "m = bind_io (heap_write (length h1) (buffer_write ''icns'' 0 4)) (\<lambda>_.
        bind_io (heap_write (length h1) (writeUInt32BE (int n) 4)) (\<lambda>_.
        copy_chunks_h addrs 8 (length h1)))"
  define p where "p = bind_err (buffer_write ''icns'' 0 4 (Buffer_alloc n)) (\<lambda>icns.
          bind_err (writeUInt32BE (int n) 4 icns) (\<lambda>icns.
          Inr (copy_chunks cs 8 icns)))"
  have va1: "\<forall>a \<in> set addrs. a < length h1" using va by (simp add: h1_def)
  have cs1: "map ((!) h1) addrs = cs" using cs by (simp add: h1_def)
  have cp: "sim h1 (copy_chunks_h addrs 8 (length h1) (h1 @ [b])) (Inr (copy_chunks cs 8 b))" for b
    by (simp add: copy_chunks_h_eq [OF va1] cs1 sim_def)
  have s: "sim h1 (m (h1 @ [Buffer_alloc n])) p"
    unfolding m_def p_def by (intro sim_write cp)
  have pure: "createIcns (contents h pngsBySize) = p"
    by (simp add: createIcns_def Inr Let_def p_def n_def)
  have heap: "createIcns_h pngsBySize h = bind_io m (\<lambda>_. return_io (length h1)) (h1 @ [Buffer_alloc n])"
    by (simp add: createIcns_h_def bind_io_def cc h1_def [symmetric] total_chunks_h_eq [OF va1] cs1
        Let_def heap_alloc_def n_def m_def split: prod.splits sum.splits)
  show ?thesis
    unfolding pure heap using s
    by (cases p; cases "m (h1 @ [Buffer_alloc n])") (auto simp: sim_def bind_io_def return_io_def)
qed

section \<open>When the encoders return\<close>

text \<open>
  \<open>createIco_eq\<close> and \<open>createIcns_eq\<close> say exactly when an encoder returns a file. In
  particular the ICO encoder returns one for at most 65535 images of non-negative
  sizes whose file is shorter than \<open>2 ^ 32\<close> bytes, and the ICNS encoder for every
  mapping whose file is shorter than \<open>2 ^ 32\<close> bytes.
\<close>

lemma length_nth_le_concat: "i < length xss \<Longrightarrow> length (xss ! i) \<le> length (concat xss)"
  using concat_nth_split [of i xss] by simp

lemma length_take_le_concat:
  "i < length xss \<Longrightarrow> length (concat (take i xss)) + length (xss ! i) \<le> length (concat xss)"
  using concat_nth_split [of i xss] by simp

lemma createIco_returns:
  assumes "length pngBuffers \<le> 65535" "\<forall>s \<in> set sizes. 0 \<le> s"
    and "6 + 16 * length pngBuffers + sum_list (map length pngBuffers) \<le> 4294967295"
  shows "\<exists>buf. createIco pngBuffers sizes = Inr buf"
proof -
  have "\<forall>i < length pngBuffers. i < length sizes \<longrightarrow> 0 \<le> sizes ! i"
    using assms(2) by (auto dest!: nth_mem)
  moreover have "\<forall>i < length pngBuffers. length (pngBuffers ! i) \<le> 4294967295 \<and>
      6 + 16 * length pngBuffers + length (concat (take i pngBuffers)) \<le> 4294967295"
  proof (intro allI impI)
    fix i assume "i < length pngBuffers"
    from length_take_le_concat [OF this] length_nth_le_concat [OF this] assms(3)
    show "length (pngBuffers ! i) \<le> 4294967295 \<and>
      6 + 16 * length pngBuffers + length (concat (take i pngBuffers)) \<le> 4294967295"
      by (simp add: length_concat)
  qed
  ultimately have "ico_ok pngBuffers sizes" using assms(1) by (intro ico_okI)
  then show ?thesis by (simp add: createIco_eq)
qed

lemma createIcns_returns:
  assumes "8 + sum_list (map (\<lambda>sz. case pngsBySize sz of None \<Rightarrow> 0 | Some png \<Rightarrow> 8 + length png)
                [16, 32, 64, 128, 256, 512, 1024]) \<le> 4294967295"
  shows "\<exists>out. createIcns pngsBySize = Inr out"
  using assms unfolding encoded_entries_total [symmetric] by (simp add: createIcns_eq)

section \<open>Worked examples\<close>

text \<open>
  The encoders run on the inputs of the example files.
\<close>

lemma ico_example: "createIco [[1, 2], [3]] [16, 256] = Inr example_ico"
  by code_simp


lemma icns_example:
  "createIcns [16 \<mapsto> [1, 2, 3, 4], 32 \<mapsto> [1, 2, 3, 4, 5, 6, 7, 8]] = Inr example_icns"
  by code_simp

lemma icns_example_reversed:
  "createIcns [32 \<mapsto> [1, 2, 3, 4, 5, 6, 7, 8], 16 \<mapsto> [1, 2, 3, 4]] = Inr example_icns"
  by code_simp

lemma icns_example_unregistered:
  "createIcns [16 \<mapsto> [9], 33 \<mapsto> [1, 2, 3, 4]] = Inr example_icns_16"
  by code_simp

section \<open>The claims\<close>

text \<open>
  Claim C1, as amended. For every non-empty list of \<open>N\<close> images, \<open>1 \<le> N \<le> 65535\<close>,
  with distinct sizes between 1 and 65535, in which every data length and every data
  offset \<open>6 + 16 * N + (sum of the preceding data lengths)\<close> fits into 32 bits, the ICO
  encoder produces a buffer of length exactly \<open>6 + 16 * N + (sum of all data lengths)\<close>
  whose first six bytes are the little-endian fields reserved = 0, type = 1 and
  count = \<open>N\<close>. Neither the distinctness of the sizes nor the non-emptiness of the list
  is needed by the proof.
\<close>

theorem createIco_length_and_header:
  assumes "1 \<le> length pngBuffers" "length pngBuffers \<le> 65535"
    and "length sizes = length pngBuffers" "distinct sizes"
    and "\<forall>s \<in> set sizes. 1 \<le> s \<and> s \<le> 65535"
    and "\<forall>i < length pngBuffers.
           length (pngBuffers ! i) \<le> 4294967295 \<and>
           6 + 16 * length pngBuffers + sum_list (map length (take i pngBuffers)) \<le> 4294967295"
  shows "\<exists>buf. createIco pngBuffers sizes = Inr buf \<and>
           length buf = 6 + 16 * length pngBuffers + sum_list (map length pngBuffers) \<and>
           readUInt16LE buf 0 = 0 \<and> readUInt16LE buf 2 = 1 \<and>
           readUInt16LE buf 4 = int (length pngBuffers)"
proof -
  have "\<forall>i < length pngBuffers. i < length sizes \<longrightarrow> 0 \<le> sizes ! i"
    using assms(5) by (auto dest!: nth_mem)
  then have "ico_ok pngBuffers sizes"
    using assms(2,6) by (intro ico_okI) (simp_all add: length_concat)
  then obtain buf where b: "createIco pngBuffers sizes = Inr buf"
    by (simp add: createIco_eq)
  with createIco_header [OF b] show ?thesis by simp
qed

theorem createIco_length_and_header_witness:
  "createIco [[1, 2], [3]] [16, 256] = Inr example_ico \<and> length example_ico = 41 \<and>
   readUInt16LE example_ico 0 = 0 \<and> readUInt16LE example_ico 2 = 1 \<and>
   readUInt16LE example_ico 4 = 2"
proof -
  have "\<exists>buf. createIco [[1, 2], [3]] [16, 256] = Inr buf \<and>
      length buf = 6 + 16 * length [[1, 2], [3 :: byte]] + sum_list (map length [[1, 2], [3 :: byte]]) \<and>
      readUInt16LE buf 0 = 0 \<and> readUInt16LE buf 2 = 1 \<and>
      readUInt16LE buf 4 = int (length [[1, 2], [3 :: byte]])"
    by (rule createIco_length_and_header) (simp_all add: less_Suc_eq)
  then show ?thesis unfolding ico_example by simp
qed

text \<open>
  The claim as it was stated, for every such list, fails where a data length does not
  fit its 4-byte field: for one image of size 1024 whose data is \<open>2 ^ 32\<close> bytes long,
  \<^verbatim>\<open>writeUInt32LE\<close> rejects the data size and no buffer is produced.
\<close>

theorem createIco_oversized: "createIco [replicate 4294967296 0] [1024] = Inl RangeError"
  by (simp add: createIco_eq ico_ok_def entry_ok_def Let_def)

text \<open>
  Claim C2. Whenever the ICNS encoder returns a buffer (\<open>createIcns_returns\<close> says when
  it does), the buffer begins with the four
  ASCII bytes \<open>icns\<close>, its bytes 4 to 7 read as a big-endian 32-bit integer are the
  buffer's own length, and what follows the header is a sequence of chunks, one per
  encoded entry, each made of the entry's 4-byte ASCII type code, the big-endian
  32-bit value 8 + (length of the entry's image data), and the image data itself.
\<close>

theorem createIcns_container:
  assumes "createIcns pngsBySize = Inr out"
  shows "take 4 out = ascii_bytes ''icns'' \<and>
         readUInt32BE out 4 = int (length out) \<and>
         (\<exists>chunks. drop 8 out = concat chunks \<and>
            list_all2 (\<lambda>chunk (sz, typeCode, png). is_chunk chunk typeCode png)
              chunks (encoded_entries pngsBySize))"
proof -
  define chunks where
    "chunks = map (\<lambda>(sz, t, png). icns_chunk t png) (encoded_entries pngsBySize)"
  have body: "drop 8 out = concat chunks"
    using createIcns_header(3) [OF assms] by (simp add: icns_body_encoded chunks_def)
  have "is_chunk (icns_chunk t png) t png" if "(sz, t, png) \<in> set (encoded_entries pngsBySize)" for sz t png
  proof -
    have "length (icns_chunk t png) \<le> length (icns_body pngsBySize)"
      using chunk_le_body [OF that] by (simp add: icns_body_encoded)
    then have "8 + length png \<le> 4294967295"
      using createIcns_Inr(1) [OF assms] by (simp add: length_icns_chunk)
    with encoded_entries_codes [OF that] show ?thesis by (rule is_chunk_icns_chunk)
  qed
  then have "list_all2 (\<lambda>chunk (sz, typeCode, png). is_chunk chunk typeCode png)
              chunks (encoded_entries pngsBySize)"
    unfolding chunks_def by (auto simp: list_all2_map1 intro!: list_all2_same [THEN iffD2])
  with body createIcns_header(1,2) [OF assms] show ?thesis by blast
qed

theorem createIcns_container_witness:
  "createIcns [16 \<mapsto> [1, 2, 3, 4], 32 \<mapsto> [1, 2, 3, 4, 5, 6, 7, 8]] = Inr example_icns \<and>
   take 4 example_icns = ascii_bytes ''icns'' \<and>
   readUInt32BE example_icns 4 = int (length example_icns) \<and>
   length example_icns = 36"
proof -
  note t = createIcns_container [OF icns_example]
  from t have a: "take 4 example_icns = ascii_bytes ''icns''" by (rule conjunct1)
  from t have b: "readUInt32BE example_icns 4 = int (length example_icns)"
    by (rule conjunct1 [OF conjunct2])
  have c: "length example_icns = 36" by (simp add: example_icns_def)
  from icns_example a b c show ?thesis by (intro conjI)
qed

text \<open>
  Claim C3. In every buffer the ICO encoder returns (\<open>createIco_returns\<close> says when it
  returns one), the width and height bytes of the
  directory entry of an image whose size is 256 are 0, and those of an image whose
  size is between 1 and 255 are that size. Entry \<open>i\<close> starts at offset \<open>6 + 16 * i\<close>.
\<close>

theorem createIco_width_height:
  assumes "createIco pngBuffers sizes = Inr buf" "i < length pngBuffers" "i < length sizes"
  shows "(sizes ! i = 256 \<longrightarrow>
            readUInt8 buf (6 + 16 * i) = 0 \<and> readUInt8 buf (6 + 16 * i + 1) = 0) \<and>
         (1 \<le> sizes ! i \<and> sizes ! i \<le> 255 \<longrightarrow>
            readUInt8 buf (6 + 16 * i) = sizes ! i \<and> readUInt8 buf (6 + 16 * i + 1) = sizes ! i)"
  unfolding readUInt8_def createIco_dimension_bytes [OF assms]
  by (simp add: u8_dimension_large u8_dimension_small)

theorem createIco_width_height_witness:
  "createIco [[1, 2], [3]] [16, 256] = Inr example_ico \<and>
   readUInt8 example_ico 6 = 16 \<and> readUInt8 example_ico 7 = 16 \<and>
   readUInt8 example_ico 22 = 0 \<and> readUInt8 example_ico 23 = 0"
  using createIco_width_height [OF ico_example, of 0] createIco_width_height [OF ico_example, of 1]
    ico_example
  by simp

text \<open>
  Claim C4. In every buffer the ICO encoder returns, for every entry index \<open>i\<close>, the
  dataOffset field (bytes 12 to 15 of the entry) is \<open>6 + 16 * N\<close> plus the sum of the data
  lengths of the entries before \<open>i\<close>, the dataSize field (bytes 8 to 11) is the length of
  the data of entry \<open>i\<close>, that data stands verbatim at that offset, and the part of the
  file behind the directory is the concatenation of all data in input order, with
  nothing in between.
\<close>

theorem createIco_directory_offsets:
  assumes "createIco pngBuffers sizes = Inr buf" "i < length pngBuffers"
  shows "readUInt32LE buf (6 + 16 * i + 12) =
           int (6 + 16 * length pngBuffers + sum_list (map length (take i pngBuffers))) \<and>
         readUInt32LE buf (6 + 16 * i + 8) = int (length (pngBuffers ! i)) \<and>
         take (length (pngBuffers ! i))
           (drop (6 + 16 * length pngBuffers + sum_list (map length (take i pngBuffers))) buf)
           = pngBuffers ! i \<and>
         drop (6 + 16 * length pngBuffers) buf = concat pngBuffers"
  using createIco_data_fields [OF assms] createIco_data_block [OF assms(1)] assms(2)
  by (simp add: length_concat)

theorem createIco_directory_offsets_witness:
  "createIco [[1, 2], [3]] [16, 256] = Inr example_ico \<and>
   readUInt32LE example_ico 34 = 40 \<and> readUInt32LE example_ico 30 = 1 \<and>
   take 1 (drop 40 example_ico) = [3] \<and> drop 38 example_ico = [1, 2, 3]"
  using createIco_directory_offsets [OF ico_example, of 1] ico_example
  by simp

text \<open>
  Claim C5, as amended. For every mapping that contains a size absent from the
  Type-Code Registry and whose file, 8 bytes plus 8 plus the data length for each
  registry size present, is at most \<open>2 ^ 32 - 1\<close> bytes long, the ICNS encoder raises no
  error: it returns a file, the same file as for the mapping without that size; the
  size is not among the encoded entries, the body consists of the chunks of the
  registry sizes only, and the total length written into the file is the length of
  the file, 8 plus 8 plus the data length for each registry size present. The data
  stored under the unregistered size is never read (\<open>createIcns_cong\<close>), so no bound
  on it is needed.
\<close>

theorem createIcns_unregistered_size:
  assumes "sz \<notin> {16, 32, 64, 128, 256, 512, 1024}"
    and "8 + sum_list (map (\<lambda>s. case pngsBySize s of None \<Rightarrow> 0 | Some p \<Rightarrow> 8 + length p)
                 [16, 32, 64, 128, 256, 512, 1024]) \<le> 4294967295"
  shows "\<exists>out. createIcns (pngsBySize(sz \<mapsto> png)) = Inr out \<and>
           createIcns (pngsBySize(sz := None)) = Inr out \<and>
           sz \<notin> set (map fst (encoded_entries (pngsBySize(sz \<mapsto> png)))) \<and>
           drop 8 out =
             concat (map (\<lambda>(s, typeCode, p). icns_chunk typeCode p)
               (encoded_entries (pngsBySize(sz := None)))) \<and>
           readUInt32BE out 4 =
             int (8 + sum_list (map (\<lambda>s. case pngsBySize s of None \<Rightarrow> 0 | Some p \<Rightarrow> 8 + length p)
                        [16, 32, 64, 128, 256, 512, 1024])) \<and>
           int (length out) = readUInt32BE out 4"
proof -
  have with_sz: "createIcns (pngsBySize(sz \<mapsto> png)) = createIcns pngsBySize"
    using assms(1) by (intro createIcns_cong) auto
  have without: "createIcns (pngsBySize(sz := None)) = createIcns pngsBySize"
    using assms(1) by (intro createIcns_cong) auto
  have entries: "encoded_entries (pngsBySize(sz := None)) = encoded_entries pngsBySize"
    using assms(1) by (intro encoded_entries_cong) auto
  from createIcns_returns [OF assms(2)] obtain out where o: "createIcns pngsBySize = Inr out"
    by blast
  have absent: "sz \<notin> set (map fst (encoded_entries (pngsBySize(sz \<mapsto> png))))"
    unfolding encoded_entries_sizes using assms(1) by auto
  have body: "drop 8 out =
      concat (map (\<lambda>(s, typeCode, p). icns_chunk typeCode p) (encoded_entries pngsBySize))"
    using createIcns_header(3) [OF o] by (simp add: icns_body_encoded)
  have "length out = 8 + length (icns_body pngsBySize)"
    by (subst createIcns_Inr(2) [OF o]) simp
  then have total: "readUInt32BE out 4 =
      int (8 + sum_list (map (\<lambda>s. case pngsBySize s of None \<Rightarrow> 0 | Some p \<Rightarrow> 8 + length p)
                        [16, 32, 64, 128, 256, 512, 1024]))"
    unfolding createIcns_header(2) [OF o] encoded_entries_total [symmetric] by simp
  show ?thesis
    unfolding with_sz without entries
    using o absent body total createIcns_header(2) [OF o] by simp
qed

theorem createIcns_unregistered_size_witness:
  "createIcns ([16 \<mapsto> [9]](33 \<mapsto> [1, 2, 3, 4])) = Inr example_icns_16 \<and>
   createIcns ([16 \<mapsto> [9]](33 := None)) = Inr example_icns_16 \<and>
   drop 8 example_icns_16 = icns_chunk ''icp4'' [9] \<and>
   readUInt32BE example_icns_16 4 = 17 \<and> length example_icns_16 = 17"
proof -
  have h: "(33::int) \<notin> {16, 32, 64, 128, 256, 512, 1024}" by simp
  have b: "8 + sum_list (map (\<lambda>s. case [16 \<mapsto> [9 :: byte]] s of None \<Rightarrow> 0 | Some p \<Rightarrow> 8 + length p)
                 [16 :: int, 32, 64, 128, 256, 512, 1024]) \<le> 4294967295"
    by simp
  have e: "encoded_entries ([16 \<mapsto> [9]](33 := None)) = [(16, ''icp4'', [9])]"
    by (simp add: encoded_entries_def icnsTypes_def)
  from createIcns_unregistered_size [OF h b, of "[1, 2, 3, 4]"]
  obtain out where o: "createIcns ([16 \<mapsto> [9]](33 \<mapsto> [1, 2, 3, 4])) = Inr out"
    and w: "createIcns ([16 \<mapsto> [9]](33 := None)) = Inr out"
    and d: "drop 8 out = concat (map (\<lambda>(s, typeCode, p). icns_chunk typeCode p)
               (encoded_entries ([16 \<mapsto> [9]](33 := None))))"
    and r: "readUInt32BE out 4 =
             int (8 + sum_list (map (\<lambda>s. case [16 \<mapsto> [9 :: byte]] s of None \<Rightarrow> 0 | Some p \<Rightarrow> 8 + length p)
                        [16 :: int, 32, 64, 128, 256, 512, 1024]))"
    and l: "int (length out) = readUInt32BE out 4"
    by blast
  from o icns_example_unregistered have out: "out = example_icns_16" by simp
  from r have r': "readUInt32BE out 4 = 17" by simp
  from l r' have l': "length out = 17" by simp
  from d have d': "drop 8 out = icns_chunk ''icp4'' [9]" unfolding e by simp
  from o w d' r' l' show ?thesis unfolding out by (intro conjI)
qed

text \<open>
  The claim as it was stated, for every mapping, fails where a registry size holds
  data too long for the 4-byte length fields: with \<open>2 ^ 32 - 8\<close> bytes under size 16
  next to the unregistered size 33, \<^verbatim>\<open>writeUInt32BE\<close> rejects the chunk length and an
  error is raised.
\<close>

theorem createIcns_unregistered_oversized:
  "createIcns [16 \<mapsto> replicate 4294967288 0, 33 \<mapsto> [1]] = Inl RangeError"
proof -
  have "length (icns_body [16 \<mapsto> replicate 4294967288 0, 33 \<mapsto> [1]]) = 4294967296"
    unfolding encoded_entries_total by simp
  then show ?thesis by (simp add: createIcns_eq)
qed

text \<open>
  Claim C6. In every file the ICNS encoder returns, the chunks are those of the
  registry sizes present in the mapping, in ascending order of size (the sizes 16, 32,
  64, 128, 256, 512, 1024 filtered by presence), each with the type code the
  specification's registry gives for its size and with the data stored under that
  size. The result does not depend on the order in which the mapping was filled: two
  sequences of assignments with distinct keys that are permutations of each other
  yield the same result.
\<close>

theorem createIcns_ascending_chunks:
  assumes "createIcns pngsBySize = Inr out"
  shows "drop 8 out =
           concat (map (\<lambda>(sz, typeCode, png). icns_chunk typeCode png) (encoded_entries pngsBySize)) \<and>
         map fst (encoded_entries pngsBySize) =
           filter (\<lambda>sz. sz \<in> dom pngsBySize) [16, 32, 64, 128, 256, 512, 1024] \<and>
         sorted_wrt (<) (map fst (encoded_entries pngsBySize)) \<and>
         (\<forall>(sz, typeCode, png) \<in> set (encoded_entries pngsBySize).
            type_code_registry sz = Some typeCode \<and> pngsBySize sz = Some png) \<and>
         (\<forall>kvs kvs'. distinct (map fst kvs) \<and> mset kvs = mset kvs' \<longrightarrow>
            createIcns (populate kvs) = createIcns (populate kvs'))"
proof -
  have 1: "drop 8 out =
      concat (map (\<lambda>(sz, typeCode, png). icns_chunk typeCode png) (encoded_entries pngsBySize))"
    using createIcns_header(3) [OF assms] by (simp add: icns_body_encoded)
  note 2 = encoded_entries_sizes [of pngsBySize]
  have 3: "sorted_wrt (<) (map fst (encoded_entries pngsBySize))"
    unfolding 2 by (rule sorted_wrt_filter) simp
  have 4: "type_code_registry sz = Some t \<and> pngsBySize sz = Some png"
    if "(sz, t, png) \<in> set (encoded_entries pngsBySize)" for sz t png
  proof -
    from encoded_entries_registry [OF that]
    have "(sz, t) \<in> set icnsTypes" and p: "pngsBySize sz = Some png" by simp_all
    moreover have "distinct (map fst icnsTypes)" by (simp add: icnsTypes_def)
    ultimately have "map_of icnsTypes sz = Some t" by simp
    with p show ?thesis by (simp add: icnsTypes_registry)
  qed
  have 5: "createIcns (populate kvs) = createIcns (populate kvs')"
    if "distinct (map fst kvs) \<and> mset kvs = mset kvs'" for kvs kvs'
    using populate_permutation [of kvs kvs'] that by simp
  from 1 2 3 4 5 show ?thesis by blast
qed

theorem createIcns_ascending_chunks_witness:
  "createIcns [32 \<mapsto> [1, 2, 3, 4, 5, 6, 7, 8], 16 \<mapsto> [1, 2, 3, 4]] = Inr example_icns \<and>
   map fst (encoded_entries [32 \<mapsto> [1, 2, 3, 4, 5, 6, 7, 8], 16 \<mapsto> [1, 2, 3, 4]]) = [16, 32] \<and>
   drop 8 example_icns =
     icns_chunk ''icp4'' [1, 2, 3, 4] @ icns_chunk ''icp5'' [1, 2, 3, 4, 5, 6, 7, 8]"
proof -
  note t = createIcns_ascending_chunks [OF icns_example_reversed]
  have e: "encoded_entries [32 \<mapsto> [1, 2, 3, 4, 5, 6, 7, 8], 16 \<mapsto> [1, 2, 3, 4]] =
      [(16, ''icp4'', [1, 2, 3, 4]), (32, ''icp5'', [1, 2, 3, 4, 5, 6, 7, 8])]"
    by (simp add: encoded_entries_def icnsTypes_def)
  from t have "map fst (encoded_entries [32 \<mapsto> [1, 2, 3, 4, 5, 6, 7, 8], 16 \<mapsto> [1, 2, 3, 4]]) =
      filter (\<lambda>sz. sz \<in> dom [32 \<mapsto> [1, 2, 3, 4, 5, 6, 7, 8 :: byte], 16 \<mapsto> [1, 2, 3, 4]])
        [16, 32, 64, 128, 256, 512, 1024]"
    by (rule conjunct1 [OF conjunct2])
  then have a: "map fst (encoded_entries [32 \<mapsto> [1, 2, 3, 4, 5, 6, 7, 8], 16 \<mapsto> [1, 2, 3, 4]]) = [16, 32]"
    by simp
  from t have "drop 8 example_icns =
      concat (map (\<lambda>(sz, typeCode, png). icns_chunk typeCode png)
        (encoded_entries [32 \<mapsto> [1, 2, 3, 4, 5, 6, 7, 8], 16 \<mapsto> [1, 2, 3, 4]]))"
    by (rule conjunct1)
  then have b: "drop 8 example_icns =
      icns_chunk ''icp4'' [1, 2, 3, 4] @ icns_chunk ''icp5'' [1, 2, 3, 4, 5, 6, 7, 8]"
    unfolding e by simp
  from icns_example_reversed a b show ?thesis by (intro conjI)
qed

text \<open>
  Claim C7, as amended. Invoked with an empty image list, the ICO encoder raises no
  error: it returns the six header bytes \<open>00 00 01 00 00 00\<close> (reserved 0, type 1,
  count 0), with no directory entry and no data. The function has no check of its
  arguments, and neither has its caller.
\<close>

theorem createIco_empty: "createIco [] sizes = Inr [0, 0, 1, 0, 0, 0]"
  by (simp add: createIco_eq ico_ok_def ico_header_def ico_directory_def le16_def)

text \<open>
  The claim as it was stated, that the call fails with a ContractViolation error and
  produces no bytes, is false: the call on the empty list is not an error.
\<close>

theorem createIco_empty_no_error:
  "createIco [] [] = Inr [0, 0, 1, 0, 0, 0] \<and> createIco [] [] \<noteq> Inl RangeError"
  by (simp add: createIco_eq ico_ok_def ico_header_def ico_directory_def le16_def)

text \<open>
  Claim C8. When no registry size is present in the mapping, the ICNS encoder does not
  fail: it returns the eight bytes \<open>icns\<close> followed by the big-endian total length 8.
\<close>

theorem createIcns_empty_body:
  assumes "\<forall>sz \<in> {16, 32, 64, 128, 256, 512, 1024}. pngsBySize sz = None"
  shows "createIcns pngsBySize = Inr (ascii_bytes ''icns'' @ [0, 0, 0, 8]) \<and>
         readUInt32BE (ascii_bytes ''icns'' @ [0, 0, 0, 8]) 4 = 8"
proof -
  have "encoded_entries pngsBySize = []"
    using assms by (simp add: encoded_entries_def icnsTypes_def)
  then have "icns_body pngsBySize = []" by (simp add: icns_body_encoded)
  then have "createIcns pngsBySize = Inr (ascii_bytes ''icns'' @ [0, 0, 0, 8])"
    by (simp add: createIcns_eq be32_def)
  moreover have "readUInt32BE (ascii_bytes ''icns'' @ [0, 0, 0, 8]) 4 = 8"
    by (simp add: readUInt32BE_def ascii_bytes_def)
  ultimately show ?thesis by simp
qed

theorem createIcns_empty_body_witness:
  "createIcns [33 \<mapsto> [1, 2, 3]] = Inr [105, 99, 110, 115, 0, 0, 0, 8] \<and>
   createIcns Map.empty = Inr [105, 99, 110, 115, 0, 0, 0, 8]"
  using createIcns_empty_body [of "[33 \<mapsto> [1, 2, 3]]"] createIcns_empty_body [of Map.empty]
  by (simp add: ascii_bytes_def)



text \<open>
  Claim C10. Neither encoder changes a buffer that existed before the call: after
  \<open>createIco_h\<close> and after \<open>createIcns_h\<close>, whether they return or throw, the objects of
  the initial store are byte for byte what they were; in particular every buffer that
  the input list or the input mapping refers to is. The encoders write only into
  buffers they allocate, which lie behind the initial store. By \<open>createIco_h_refines\<close>
  and \<open>createIcns_h_refines\<close> the encoders over the store are the encoders of the
  other claims.
\<close>

theorem encoders_keep_inputs:
  "take (length h) (snd (createIco_h pngBuffers sizes h)) = h \<and>
   take (length h) (snd (createIcns_h pngsBySize h)) = h \<and>
   (\<forall>a \<in> set pngBuffers. a < length h \<longrightarrow>
      snd (createIco_h pngBuffers sizes h) ! a = h ! a) \<and>
   (\<forall>sz a. pngsBySize sz = Some a \<and> a < length h \<longrightarrow>
      snd (createIcns_h pngsBySize h) ! a = h ! a)"
proof -
  note ico = preserves_heap [OF preserves_createIco, of h pngBuffers sizes]
  note icns = preserves_heap [OF preserves_createIcns, of h pngsBySize]
  have "h' ! a = h ! a" if "take (length h) h' = h" "a < length h" for h' a
    using nth_take [OF that(2), of h'] that(1) by simp
  with ico icns show ?thesis by blast
qed

theorem encoders_keep_inputs_witness:
  "take 2 (snd (createIco_h [0, 1] [16, 256] [[1, 2], [3]])) = [[1, 2], [3]] \<and>
   take 2 (snd (createIcns_h [16 \<mapsto> 0, 32 \<mapsto> 1] [[1, 2], [3]])) = [[1, 2], [3]] \<and>
   snd (createIco_h [0, 1] [16, 256] [[1, 2], [3]]) ! 1 = [3] \<and>
   snd (createIcns_h [16 \<mapsto> 0, 32 \<mapsto> 1] [[1, 2], [3]]) ! 1 = [3]"
proof -
  have l: "length [[1, 2], [3 :: byte]] = 2" by simp
  note t = encoders_keep_inputs [of "[[1, 2], [3]]" "[0, 1]" "[16, 256]" "[16 \<mapsto> 0, 32 \<mapsto> 1]",
      unfolded l]
  from t have a: "take 2 (snd (createIco_h [0, 1] [16, 256] [[1, 2], [3]])) = [[1, 2], [3]]"
    and b: "take 2 (snd (createIcns_h [16 \<mapsto> 0, 32 \<mapsto> 1] [[1, 2], [3]])) = [[1, 2], [3]]"
    by simp_all
  from t have "\<forall>a \<in> set [0, 1]. a < (2::nat) \<longrightarrow>
      snd (createIco_h [0, 1] [16, 256] [[1, 2], [3]]) ! a = [[1, 2], [3 :: byte]] ! a"
    by (rule conjunct1 [OF conjunct2 [OF conjunct2]])
  then have c: "snd (createIco_h [0, 1] [16, 256] [[1, 2], [3]]) ! 1 = [3]" by simp
  from t have "\<forall>sz a. [16 :: int \<mapsto> 0, 32 \<mapsto> 1] sz = Some a \<and> a < (2::nat) \<longrightarrow>
      snd (createIcns_h [16 \<mapsto> 0, 32 \<mapsto> 1] [[1, 2], [3]]) ! a = [[1, 2], [3 :: byte]] ! a"
    by (rule conjunct2 [OF conjunct2 [OF conjunct2]])
  from this [rule_format, of 32 1]
  have d: "snd (createIcns_h [16 \<mapsto> 0, 32 \<mapsto> 1] [[1, 2], [3]]) ! 1 = [3]" by simp
  from a b c d show ?thesis by (intro conjI)
qed

end
